theory Spec2Isabelle
  imports Main "HOL-Library.Multiset"
begin

section \<open>Data model\<close>

text \<open>
  The persistent store of the capture service: the table of capture jobs, the table of
  archives and the database clock. Rows are never deleted and primary keys are handed out
  in insertion order, so a job's primary key is its index in \<open>jobs\<close>. Timestamps are
  readings of the database clock (\<open>now()\<close> in the source), modelled as integers. The
  remaining fields of \<open>world\<close> record what a task does outside the store: log records,
  calls to the container runtime, files saved to storage, tasks handed to the broker,
  HTTP requests and emails.
\<close>

datatype status = Pending | InProgress | Completed | Failed | Invalid

type_synonym message = "(string \<times> string list) list"

record capture_job =
  user_id :: nat
  human :: bool
  submitted :: int
  requested_url :: string
  validated_url :: "string option"
  status :: status
  step_count :: nat
  step_description :: string
  message :: message
  capture_start_time :: "int option"
  capture_end_time :: "int option"

record archive =
  archive_job :: nat
  hash :: string
  hash_algorithm :: string
  warc_size :: nat
  download_url :: string
  download_expiration_timestamp :: int

datatype log_record =
    Log_NoJobs
  | Log_Step nat nat string
  | Log_BrowsertrixExited "int option"
  | Log_Halt
  | Log_SoftTimeout nat
  | Log_Exception nat
  | Log_CaptureSucceeded
  | Log_CaptureFailed
  | Log_ExceptionFinishing nat
  | Log_WebhooksDisabled nat nat
  | Log_DeliveryFailed nat nat nat nat
  | Log_PermanentlyFailed nat nat
  | Log_Delivered nat nat

datatype docker_call =
    DockerFromEnv | ContainerCreate | ContainerStart | ContainerStop | ContainerRemove
  | ClientClose

datatype task = RunNextCapture | DispatchWebhook nat nat nat nat

record http_request =
  request_url :: string
  json :: "nat \<times> nat option"
  x_hook_signature :: string
  request_timeout :: nat
  allow_redirects :: bool

record email =
  recipient :: string
  about_subscription :: nat
  about_capture_job :: "nat option"

record world =
  jobs :: "capture_job list"
  archives :: "archive list"
  now :: int
  log_records :: "log_record list"
  docker_calls :: "docker_call list"
  stored_files :: "nat list"
  enqueued :: "task list"
  http_requests :: "http_request list"
  outbox :: "email list"

definition terminal :: "status \<Rightarrow> bool" where
  "terminal st \<longleftrightarrow> st = Completed \<or> st = Failed \<or> st = Invalid"

subsection \<open>Methods of a job row\<close>

text \<open>
  \<open>settings_base.py\<close> sets the \<open>NON_FIELD_ERRORS_KEY\<close> of the REST framework to
  \<open>error\<close>.
\<close>

definition NON_FIELD_ERRORS_KEY :: string where
  "NON_FIELD_ERRORS_KEY = ''error''"

text \<open>
  Modelled from the spec: the methods \<open>inc_progress\<close>, \<open>mark_failed\<close>, \<open>mark_invalid\<close>
  and \<open>mark_completed\<close> of \<open>CaptureJob\<close> live in \<open>main/models.py\<close>, which is not among
  the source files. The spec's data model says that \<open>step_count\<close> and \<open>step_description\<close>
  are the progress cursor, that \<open>message\<close> is set on Invalid and Failed, and that
  \<open>capture_end_time\<close> is set on the terminal transition; the queue test reads the failure
  message under the key \<open>NON_FIELD_ERRORS_KEY\<close>. Writes to a job row always succeed.
\<close>

definition job_inc_progress :: "nat \<Rightarrow> string \<Rightarrow> capture_job \<Rightarrow> capture_job" where
  "job_inc_progress inc description j =
     j\<lparr>step_count := step_count j + inc, step_description := description\<rparr>"

definition mark_failed :: "string \<Rightarrow> int \<Rightarrow> capture_job \<Rightarrow> capture_job" where
  "mark_failed msg t j =
     j\<lparr>status := Failed, message := [(NON_FIELD_ERRORS_KEY, [msg])], capture_end_time := Some t\<rparr>"

definition mark_invalid :: "message \<Rightarrow> int \<Rightarrow> capture_job \<Rightarrow> capture_job" where
  "mark_invalid msg t j = j\<lparr>status := Invalid, message := msg, capture_end_time := Some t\<rparr>"

definition mark_completed :: "int \<Rightarrow> capture_job \<Rightarrow> capture_job" where
  "mark_completed t j = j\<lparr>status := Completed, capture_end_time := Some t\<rparr>"

definition update_job :: "nat \<Rightarrow> (capture_job \<Rightarrow> capture_job) \<Rightarrow> world \<Rightarrow> world" where
  "update_job i f w = w\<lparr>jobs := (jobs w)[i := f (jobs w ! i)]\<rparr>"

definition emit :: "log_record \<Rightarrow> world \<Rightarrow> world" where
  "emit r w = w\<lparr>log_records := log_records w @ [r]\<rparr>"

definition docker :: "docker_call \<Rightarrow> world \<Rightarrow> world" where
  "docker c w = w\<lparr>docker_calls := docker_calls w @ [c]\<rparr>"

text \<open>
  Modelled from the spec: job creation belongs to the API layer, which is not among the
  source files; it inserts a Pending record stamped with the submission time. The queue
  test creates its jobs this way (\<open>pending_capture_job_factory\<close>). The database clock
  moves on with every insertion and every reservation, so no two of them carry the same
  timestamp.
\<close>

definition submit_job :: "nat \<Rightarrow> bool \<Rightarrow> string \<Rightarrow> world \<Rightarrow> world" where
  "submit_job u h requested w =
     w\<lparr>jobs := jobs w @
          [\<lparr>user_id = u, human = h, submitted = now w, requested_url = requested,
            validated_url = None, status = Pending, step_count = 0, step_description = [],
            message = [], capture_start_time = None, capture_end_time = None\<rparr>],
       now := now w + 1\<rparr>"

definition empty_world :: world where
  "empty_world =
     \<lparr>jobs = [], archives = [], now = 0, log_records = [], docker_calls = [],
      stored_files = [], enqueued = [], http_requests = [], outbox = []\<rparr>"

section \<open>Job queue and scheduler\<close>

subsection \<open>Fairness ordering\<close>

text \<open>
  Modelled from the spec: \<open>CaptureJob.get_next_job\<close> and \<open>CaptureJob.queue_position\<close>
  live in \<open>main/models.py\<close>, which is not among the source files; only their callers
  (\<open>run_next_capture\<close>) and tests (\<open>test_job_queue_order\<close>) are. The definitions below
  follow section 4.1 of the spec. Pending human jobs are partitioned into one FIFO queue
  per user, ordered by submission timestamp and then primary key. The users with a
  pending human job are in rotation; the next user is the one served longest ago, where a
  user who enters the pending set (never served, or served before the oldest pending job
  arrived) counts from the arrival of that oldest pending job. The time a user was last
  served is the latest \<open>capture_start_time\<close> of the user's human jobs. Each turn takes the
  oldest pending job of the next user. Robot jobs are one global FIFO queue, used only
  when no human job is pending.
\<close>

definition pending_ids :: "world \<Rightarrow> nat list" where
  "pending_ids w = filter (\<lambda>i. status (jobs w ! i) = Pending) [0..<length (jobs w)]"

definition human_pending :: "world \<Rightarrow> nat list" where
  "human_pending w = filter (\<lambda>i. human (jobs w ! i)) (pending_ids w)"

definition robot_pending :: "world \<Rightarrow> nat list" where
  "robot_pending w = filter (\<lambda>i. \<not> human (jobs w ! i)) (pending_ids w)"

definition user_queue :: "world \<Rightarrow> nat \<Rightarrow> nat list" where
  "user_queue w u = filter (\<lambda>i. user_id (jobs w ! i) = u) (human_pending w)"

definition older :: "world \<Rightarrow> nat \<Rightarrow> nat \<Rightarrow> bool" where
  "older w i j \<longleftrightarrow>
     submitted (jobs w ! i) < submitted (jobs w ! j) \<or>
     (submitted (jobs w ! i) = submitted (jobs w ! j) \<and> i < j)"

fun least_by :: "('a \<Rightarrow> 'a \<Rightarrow> bool) \<Rightarrow> 'a list \<Rightarrow> 'a option" where
  "least_by lt [] = None"
| "least_by lt (x # xs) =
     (case least_by lt xs of
        None \<Rightarrow> Some x
      | Some y \<Rightarrow> if lt y x then Some y else Some x)"

definition oldest :: "world \<Rightarrow> nat list \<Rightarrow> nat option" where
  "oldest w = least_by (older w)"

fun latest :: "int option list \<Rightarrow> int option" where
  "latest [] = None"
| "latest (None # ts) = latest ts"
| "latest (Some t # ts) =
     (case latest ts of None \<Rightarrow> Some t | Some m \<Rightarrow> Some (max t m))"

definition last_served :: "world \<Rightarrow> nat \<Rightarrow> int option" where
  "last_served w u =
     latest (map capture_start_time (filter (\<lambda>j. human j \<and> user_id j = u) (jobs w)))"

definition rotation_time :: "world \<Rightarrow> nat \<Rightarrow> int" where
  "rotation_time w u =
     (case oldest w (user_queue w u) of
        None \<Rightarrow> 0
      | Some i \<Rightarrow>
          (case last_served w u of
             None \<Rightarrow> submitted (jobs w ! i)
           | Some t \<Rightarrow> if t < submitted (jobs w ! i) then submitted (jobs w ! i) else t))"

definition user_before :: "world \<Rightarrow> nat \<Rightarrow> nat \<Rightarrow> bool" where
  "user_before w u v \<longleftrightarrow>
     rotation_time w u < rotation_time w v \<or>
     (rotation_time w u = rotation_time w v \<and> u < v)"

definition rotation :: "world \<Rightarrow> nat list" where
  "rotation w = remdups (map (\<lambda>i. user_id (jobs w ! i)) (human_pending w))"

definition next_user :: "world \<Rightarrow> nat option" where
  "next_user w = least_by (user_before w) (rotation w)"

definition select_next_job :: "world \<Rightarrow> nat option" where
  "select_next_job w =
     (case next_user w of
        Some u \<Rightarrow> oldest w (user_queue w u)
      | None \<Rightarrow> oldest w (robot_pending w))"

subsection \<open>Reservation\<close>

text \<open>
  Modelled from the spec: reserving flips the selected job from Pending to InProgress and
  sets \<open>capture_start_time\<close> from the database clock, as one indivisible operation.
  \<open>get_next_job\<close> returns nothing when no job is eligible.
\<close>

definition reserve :: "nat \<Rightarrow> world \<Rightarrow> world" where
  "reserve i w =
     (update_job i (\<lambda>j. j\<lparr>status := InProgress, capture_start_time := Some (now w)\<rparr>) w)
       \<lparr>now := now w + 1\<rparr>"

definition get_next_job :: "bool \<Rightarrow> world \<Rightarrow> nat option \<times> world" where
  "get_next_job reserving w =
     (case select_next_job w of
        None \<Rightarrow> (None, w)
      | Some i \<Rightarrow> (Some i, if reserving then reserve i w else w))"

fun next_jobs :: "nat \<Rightarrow> world \<Rightarrow> nat option list" where
  "next_jobs 0 w = []"
| "next_jobs (Suc n) w =
     fst (get_next_job True w) # next_jobs n (snd (get_next_job True w))"

subsection \<open>Queue position\<close>

text \<open>
  Modelled from the spec: \<open>queue_position\<close> answers, without changing anything, at which
  position a pending job would be served. A human job's turn is the number of older
  pending human jobs of the same user; human jobs are served turn by turn, and within a
  turn in rotation order of their users; robot jobs come after all human jobs, oldest
  first. A job that is not pending has position 0.
\<close>

definition turn :: "world \<Rightarrow> nat \<Rightarrow> nat" where
  "turn w i = length (filter (\<lambda>j. older w j i) (user_queue w (user_id (jobs w ! i))))"

definition served_before :: "world \<Rightarrow> nat \<Rightarrow> nat \<Rightarrow> bool" where
  "served_before w i j \<longleftrightarrow>
     turn w i < turn w j \<or>
     (turn w i = turn w j \<and> user_before w (user_id (jobs w ! i)) (user_id (jobs w ! j)))"

definition queue_position :: "world \<Rightarrow> nat \<Rightarrow> nat" where
  "queue_position w i =
     (if i \<notin> set (pending_ids w) then 0
      else if human (jobs w ! i)
      then Suc (length (filter (\<lambda>j. served_before w j i) (human_pending w)))
      else length (human_pending w) + Suc (length (filter (\<lambda>j. older w j i) (robot_pending w))))"

text \<open>
  The timestamps of a store lie in the past of the database clock: every job was submitted
  before now, and reserved before now if it has been reserved. The empty store is such a
  store, and submitting and reserving keep it so.
\<close>

definition clock_ahead :: "world \<Rightarrow> bool" where
  "clock_ahead w \<longleftrightarrow>
     (\<forall>j \<in> set (jobs w).
        submitted j < now w \<and>
        (case capture_start_time j of None \<Rightarrow> True | Some c \<Rightarrow> c < now w))"

subsection \<open>Stale-job reaping\<close>

text \<open>
  \<open>clean_up_failed_captures\<close> of \<open>main/tasks.py\<close>: every row with status
  \<open>IN_PROGRESS\<close> that satisfies the extra where clause
  \<open>capture_start_time < now() - make_interval(secs => CELERY_TASK_TIME_LIMIT)\<close> is marked
  failed with the message \<open>Timed out.\<close>. In SQL a comparison with a null
  \<open>capture_start_time\<close> is not true, so such a row is not selected.
\<close>

definition CELERY_TASK_TIME_LIMIT :: int where
  "CELERY_TASK_TIME_LIMIT = 420"

definition timed_out :: "int \<Rightarrow> int \<Rightarrow> capture_job \<Rightarrow> bool" where
  "timed_out limit t j \<longleftrightarrow>
     status j = InProgress \<and>
     (case capture_start_time j of None \<Rightarrow> False | Some c \<Rightarrow> c < t - limit)"

definition clean_up_failed_captures :: "int \<Rightarrow> world \<Rightarrow> world" where
  "clean_up_failed_captures limit w =
     w\<lparr>jobs := map (\<lambda>j. if timed_out limit (now w) j then mark_failed ''Timed out.'' (now w) j else j)
                  (jobs w)\<rparr>"

section \<open>Capture orchestrator\<close>

text \<open>
  \<open>run_next_capture\<close> of \<open>main/tasks.py\<close>. What the outside world does during one run is
  fixed by a \<open>capture_env\<close>: the verdict of \<open>validate_and_clean_url\<close>, whether each call to
  the container runtime succeeds, the lines the container writes to standard output, an
  exception raised in the main thread after a number of lines (the soft time limit, or
  any other error), the outcomes of the two \<open>wait\<close> calls of the life-cycle thread,
  whether the output file exists, and what storage answers. Opening the output file fails
  exactly when it does not exist; hashing the open file and the assertion that it has been
  read to the end do not fail. Writes to the job row and to the archive table succeed. The
  job object in memory and its row agree, since no other task writes to a reserved job.
\<close>

datatype exc = HaltCaptureException | SoftTimeLimitExceeded | OtherException

datatype wait_outcome = WaitReturned "int option" | WaitConnectionError

record capture_env =
  validate_and_clean :: "string \<Rightarrow> string list + string"
  from_env_ok :: bool
  create_ok :: bool
  start_ok :: bool
  stdout_stream :: "string list"
  interrupt :: "(nat \<times> exc) option"
  first_wait :: wait_outcome
  second_wait :: wait_outcome
  artifact_exists :: bool
  remove_ok :: bool
  close_ok :: bool
  file_hash :: "string \<times> string"
  file_size :: nat
  storage_save_ok :: bool
  storage_url :: string
  url_expires :: "int option"
  filename :: nat

record life_cycle =
  timedout :: bool
  exit_code :: "int option"

record locals =
  client :: bool
  container :: bool
  have_archive :: bool

text \<open>
  \<open>BrowsertrixLifeCycleThread.run\<close>: wait for the container; when the wait times out
  (a connection error), stop the container and wait once more. The exit code is the
  \<open>StatusCode\<close> of the last result, absent when there is none.
\<close>

definition browsertrix_life_cycle :: "wait_outcome \<Rightarrow> wait_outcome \<Rightarrow> life_cycle" where
  "browsertrix_life_cycle first second =
     (case first of
        WaitReturned c \<Rightarrow> \<lparr>timedout = False, exit_code = c\<rparr>
      | WaitConnectionError \<Rightarrow>
          \<lparr>timedout = True,
           exit_code = (case second of WaitReturned c \<Rightarrow> c | WaitConnectionError \<Rightarrow> None)\<rparr>)"

text \<open>
  \<open>str.strip()\<close> removes leading and trailing whitespace. A character stands for a
  code point below 256; among those, Python counts as whitespace the space, the controls
  \<open>0x09\<close> to \<open>0x0D\<close> and \<open>0x1C\<close> to \<open>0x1F\<close>, the next-line control \<open>0x85\<close> and
  the no-break space \<open>0xA0\<close>.
\<close>

definition is_space :: "char \<Rightarrow> bool" where
  "is_space c \<longleftrightarrow>
     c \<in> set [CHR '' '', CHR 0x09, CHR 0x0A, CHR 0x0B, CHR 0x0C, CHR 0x0D,
               CHR 0x1C, CHR 0x1D, CHR 0x1E, CHR 0x1F, CHR 0x85, CHR 0xA0]"

definition strip :: "string \<Rightarrow> string" where
  "strip s = rev (dropWhile is_space (rev (dropWhile is_space s)))"

definition inc_progress :: "nat \<Rightarrow> nat \<Rightarrow> string \<Rightarrow> world \<Rightarrow> world" where
  "inc_progress i inc description w =
     (let w' = update_job i (job_inc_progress inc description) w
      in emit (Log_Step i (step_count (jobs w' ! i)) (step_description (jobs w' ! i))) w')"

definition lines_read :: "capture_env \<Rightarrow> string list" where
  "lines_read env =
     (case interrupt env of
        None \<Rightarrow> stdout_stream env
      | Some (k, e) \<Rightarrow> take k (stdout_stream env))"

definition interrupted :: "capture_env \<Rightarrow> exc option" where
  "interrupted env =
     (case interrupt env of
        None \<Rightarrow> None
      | Some (k, e) \<Rightarrow> if k \<le> length (stdout_stream env) then Some e else None)"

definition evaluate_outcome ::
  "capture_env \<Rightarrow> nat \<Rightarrow> locals \<Rightarrow> world \<Rightarrow> exc option \<times> locals \<times> world" where
  "evaluate_outcome env i l w =
     (let thread = browsertrix_life_cycle (first_wait env) (second_wait env);
          w1 = (if timedout thread then docker ContainerStop w else w)
      in if exit_code thread \<noteq> Some 0
         then (Some HaltCaptureException,
               (if artifact_exists env then l\<lparr>have_archive := True\<rparr> else l),
               emit (Log_BrowsertrixExited (exit_code thread)) w1)
         else (None, l\<lparr>have_archive := True\<rparr>, w1))"

definition run_browsertrix ::
  "capture_env \<Rightarrow> nat \<Rightarrow> locals \<Rightarrow> world \<Rightarrow> exc option \<times> locals \<times> world" where
  "run_browsertrix env i l w =
     (let w1 = inc_progress i 1 ''Starting browsertrix.'' w
      in if \<not> start_ok env then (Some OtherException, l, w1)
         else
           let w2 = docker ContainerStart w1;
               w3 = fold (\<lambda>msg. inc_progress i 1 (''Browsertrix: '' @ strip msg @ ''.''))
                      (lines_read env) w2
           in case interrupted env of
                Some e \<Rightarrow> (Some e, l, w3)
              | None \<Rightarrow> evaluate_outcome env i l w3)"

definition create_container ::
  "capture_env \<Rightarrow> nat \<Rightarrow> locals \<Rightarrow> world \<Rightarrow> exc option \<times> locals \<times> world" where
  "create_container env i l w =
     (let w1 = inc_progress i 1 ''Creating browsertrix container.'' w
      in if \<not> create_ok env then (Some OtherException, l, w1)
         else run_browsertrix env i (l\<lparr>container := True\<rparr>) (docker ContainerCreate w1))"

definition connect_to_docker ::
  "capture_env \<Rightarrow> nat \<Rightarrow> locals \<Rightarrow> world \<Rightarrow> exc option \<times> locals \<times> world" where
  "connect_to_docker env i l w =
     (let w1 = inc_progress i 1 ''Connecting to Docker.'' w
      in if \<not> from_env_ok env then (Some OtherException, l, w1)
         else create_container env i (l\<lparr>client := True\<rparr>) (docker DockerFromEnv w1))"

definition capture_body ::
  "capture_env \<Rightarrow> nat \<Rightarrow> locals \<Rightarrow> world \<Rightarrow> exc option \<times> locals \<times> world" where
  "capture_body env i l w =
     (let w1 = inc_progress i 0 ''Validating.'' w
      in case validate_and_clean env (requested_url (jobs w1 ! i)) of
           Inl messages \<Rightarrow>
             (Some HaltCaptureException, l,
              update_job i (mark_invalid [(''requested_url'', messages)] (now w1)) w1)
         | Inr cleaned \<Rightarrow>
             connect_to_docker env i l
               (update_job i (\<lambda>j. j\<lparr>validated_url := Some cleaned\<rparr>) w1))"

definition handle_exception :: "exc option \<Rightarrow> nat \<Rightarrow> world \<Rightarrow> world" where
  "handle_exception e i w =
     (case e of
        None \<Rightarrow> w
      | Some HaltCaptureException \<Rightarrow> emit Log_Halt w
      | Some SoftTimeLimitExceeded \<Rightarrow> emit (Log_SoftTimeout i) w
      | Some OtherException \<Rightarrow> emit (Log_Exception i) w)"

definition save_archive :: "capture_env \<Rightarrow> nat \<Rightarrow> world \<Rightarrow> world" where
  "save_archive env i w =
     (if \<not> artifact_exists env then emit (Log_ExceptionFinishing i) w
      else
        let w1 = inc_progress i 1 ''Processing archive.'' w;
            w2 = inc_progress i 1 ''Saving archive.'' w1
        in if \<not> storage_save_ok env then emit (Log_ExceptionFinishing i) w2
           else
             let w3 = w2\<lparr>stored_files := stored_files w2 @ [filename env]\<rparr>
             in case url_expires env of
                  None \<Rightarrow> emit (Log_ExceptionFinishing i) w3
                | Some expiry \<Rightarrow>
                    let w4 = w3\<lparr>archives := archives w3 @
                               [\<lparr>archive_job = i, hash = fst (file_hash env),
                                 hash_algorithm = snd (file_hash env),
                                 warc_size = file_size env,
                                 download_url = storage_url env,
                                 download_expiration_timestamp = expiry\<rparr>]\<rparr>
                    in emit Log_CaptureSucceeded (update_job i (mark_completed (now w4)) w4))"

definition finalize :: "capture_env \<Rightarrow> nat \<Rightarrow> locals \<Rightarrow> world \<Rightarrow> world" where
  "finalize env i l w =
     (if container l \<and> \<not> remove_ok env then emit (Log_ExceptionFinishing i) w
      else
        let w1 = (if container l then docker ContainerRemove w else w)
        in if client l \<and> \<not> close_ok env then emit (Log_ExceptionFinishing i) w1
           else
             let w2 = (if client l then docker ClientClose w1 else w1)
             in if have_archive l then save_archive env i w2
                else emit Log_CaptureFailed w2)"

definition safety_net :: "nat \<Rightarrow> world \<Rightarrow> world" where
  "safety_net i w =
     (if status (jobs w ! i) = InProgress
      then update_job i (mark_failed ''Failed during capture.'' (now w)) w
      else w)"

definition apply_async :: "task \<Rightarrow> world \<Rightarrow> world" where
  "apply_async t w = w\<lparr>enqueued := enqueued w @ [t]\<rparr>"

definition no_locals :: locals where
  "no_locals = \<lparr>client = False, container = False, have_archive = False\<rparr>"

definition capture :: "capture_env \<Rightarrow> nat \<Rightarrow> world \<Rightarrow> world" where
  "capture env i w =
     (case capture_body env i no_locals w of
        (e, l, w1) \<Rightarrow> safety_net i (finalize env i l (handle_exception e i w1)))"

definition run_next_capture :: "int \<Rightarrow> capture_env \<Rightarrow> world \<Rightarrow> world" where
  "run_next_capture limit env w =
     (case get_next_job True (clean_up_failed_captures limit w) of
        (None, w1) \<Rightarrow> emit Log_NoJobs w1
      | (Some i, w1) \<Rightarrow> apply_async RunNextCapture (capture env i w1))"

subsection \<open>URL validation\<close>

text \<open>
  Modelled from the spec: \<open>validate_and_clean_url\<close> lives in \<open>main/utils.py\<close>, which is
  not among the source files. The spec says that it trims whitespace, puts an explicit
  scheme in front of a URL that has none, and rejects URLs that are empty, malformed, not
  http(s), or that contain control characters; the doctest of \<open>run_next_capture\<close> lists
  \<open>examplecom\<close>, a host without a dot, among the malformed ones. A rejection carries a
  non-empty list of messages, as a Django \<open>ValidationError\<close> does.
\<close>

definition is_control :: "char \<Rightarrow> bool" where
  "is_control c \<longleftrightarrow> (of_char c :: nat) < 32 \<or> (of_char c :: nat) = 127"

fun split_scheme :: "string \<Rightarrow> (string \<times> string) option" where
  "split_scheme [] = None"
| "split_scheme (c # cs) =
     (if take 3 (c # cs) = ''://'' then Some ([], drop 3 (c # cs))
      else (case split_scheme cs of None \<Rightarrow> None | Some (a, b) \<Rightarrow> Some (c # a, b)))"

definition host_of :: "string \<Rightarrow> string" where
  "host_of rest = takeWhile (\<lambda>c. c \<notin> set ''/?#'') rest"

definition with_scheme :: "string \<Rightarrow> string" where
  "with_scheme u = (case split_scheme u of None \<Rightarrow> ''http://'' @ u | Some _ \<Rightarrow> u)"

definition malformed :: "string \<Rightarrow> bool" where
  "malformed u \<longleftrightarrow>
     (case split_scheme u of
        None \<Rightarrow> True
      | Some (scheme, rest) \<Rightarrow> CHR ''.'' \<notin> set (host_of rest) \<or> CHR '' '' \<in> set rest)"

definition non_http :: "string \<Rightarrow> bool" where
  "non_http u \<longleftrightarrow>
     (case split_scheme u of
        None \<Rightarrow> True
      | Some (scheme, rest) \<Rightarrow> scheme \<noteq> ''http'' \<and> scheme \<noteq> ''https'')"

definition validate_and_clean_url :: "string \<Rightarrow> string list + string" where
  "validate_and_clean_url requested =
     (let u = strip requested
      in if u = [] then Inl [''URL cannot be empty.'']
         else if list_ex is_control u then Inl [''URL cannot contain control characters.'']
         else if non_http (with_scheme u) then Inl [''Not a valid URL.'']
         else if malformed (with_scheme u) then Inl [''Not a valid URL.'']
         else Inr (with_scheme u))"

subsection \<open>Outcome of a run\<close>

text \<open>
  Predicates on the environment that name the paths through \<open>run_next_capture\<close>: the
  exit code the life-cycle thread records; the container was started, that is, the
  runtime handle was obtained and the container created and started; the container ran
  and exited, that is, it was started and the main thread was not interrupted; no
  step of the finalize block raises; and the run completes, which is when an archive is
  saved. \<open>new_archive\<close> is the Archive record the finalize block builds.
\<close>

definition exit_status :: "capture_env \<Rightarrow> int option" where
  "exit_status env = exit_code (browsertrix_life_cycle (first_wait env) (second_wait env))"

definition container_started :: "capture_env \<Rightarrow> bool" where
  "container_started env \<longleftrightarrow> from_env_ok env \<and> create_ok env \<and> start_ok env"

definition container_exited :: "capture_env \<Rightarrow> bool" where
  "container_exited env \<longleftrightarrow>
     from_env_ok env \<and> create_ok env \<and> start_ok env \<and> interrupted env = None"

definition finalize_ok :: "capture_env \<Rightarrow> bool" where
  "finalize_ok env \<longleftrightarrow>
     (from_env_ok env \<and> create_ok env \<longrightarrow> remove_ok env) \<and>
     (from_env_ok env \<longrightarrow> close_ok env) \<and>
     artifact_exists env \<and> storage_save_ok env \<and> url_expires env \<noteq> None"

definition completes :: "capture_env \<Rightarrow> bool" where
  "completes env \<longleftrightarrow>
     container_exited env \<and> (exit_status env = Some 0 \<or> artifact_exists env) \<and> finalize_ok env"

definition new_archive :: "capture_env \<Rightarrow> nat \<Rightarrow> archive" where
  "new_archive env i =
     \<lparr>archive_job = i, hash = fst (file_hash env), hash_algorithm = snd (file_hash env),
      warc_size = file_size env, download_url = storage_url env,
      download_expiration_timestamp = the (url_expires env)\<rparr>"


section \<open>Webhook dispatcher\<close>

text \<open>
  \<open>dispatch_webhook\<close> of \<open>main/tasks.py\<close>, one invocation with \<open>self.request.retries\<close>
  equal to \<open>retries\<close>. The settings, the subscription table and the signing function are
  parameters (\<open>webhook_env\<close>); the answer of the callback is an \<open>http_outcome\<close>. The
  payload is the pair of the serialised subscription and the serialised capture job,
  represented by their keys.
\<close>

record webhook_subscription =
  owner_email :: string
  callback_url :: string
  signing_key :: string
  signing_key_algorithm :: string

datatype http_outcome = Response nat | RequestException

datatype raised = Retry nat | DoesNotExist

datatype outcome = Returned | Raised raised

record webhook_env =
  DISPATCH_WEBHOOKS :: bool
  WEBHOOK_MAX_RETRIES :: nat
  subscriptions :: "nat \<Rightarrow> webhook_subscription option"
  sign_data :: "nat \<times> nat option \<Rightarrow> string \<Rightarrow> string \<Rightarrow> string"

definition accepted :: "http_outcome \<Rightarrow> bool" where
  "accepted r \<longleftrightarrow> r = Response 200 \<or> r = Response 204"

text \<open>
  Modelled from the spec: the retry primitive of the task substrate (\<open>self.retry\<close>) is not
  part of the repository. It schedules the task again after the countdown and raises
  \<open>Retry\<close>, unless the task has already been retried the maximum number of times, in
  which case it raises \<open>MaxRetriesExceededError\<close> and schedules nothing.
\<close>

definition retry :: "nat \<Rightarrow> nat \<Rightarrow> nat \<Rightarrow> nat \<Rightarrow> nat \<Rightarrow> world \<Rightarrow> bool \<times> world" where
  "retry max_retries retries subscription_id capture_job_id countdown w =
     (if retries < max_retries
      then (True, apply_async (DispatchWebhook subscription_id capture_job_id (Suc retries) countdown) w)
      else (False, w))"

definition post :: "webhook_env \<Rightarrow> webhook_subscription \<Rightarrow> nat \<times> nat option \<Rightarrow> world \<Rightarrow> world" where
  "post env subscription body w =
     w\<lparr>http_requests := http_requests w @
         [\<lparr>request_url = callback_url subscription, json = body,
           x_hook_signature =
             sign_data env body (signing_key subscription) (signing_key_algorithm subscription),
           request_timeout = 20, allow_redirects = False\<rparr>]\<rparr>"

definition send_template_email :: "webhook_subscription \<Rightarrow> nat \<Rightarrow> nat option \<Rightarrow> world \<Rightarrow> world" where
  "send_template_email subscription subscription_id capture_job w =
     w\<lparr>outbox := outbox w @
         [\<lparr>recipient = owner_email subscription, about_subscription = subscription_id,
           about_capture_job = capture_job\<rparr>]\<rparr>"

definition dispatch_webhook ::
  "webhook_env \<Rightarrow> nat \<Rightarrow> nat \<Rightarrow> nat \<Rightarrow> http_outcome \<Rightarrow> world \<Rightarrow> outcome \<times> world" where
  "dispatch_webhook env retries subscription_id capture_job_id response w =
     (if \<not> DISPATCH_WEBHOOKS env
      then (Returned, emit (Log_WebhooksDisabled subscription_id capture_job_id) w)
      else
        case subscriptions env subscription_id of
          None \<Rightarrow> (Raised DoesNotExist, w)
        | Some subscription \<Rightarrow>
            let capture_job =
                  (if capture_job_id < length (jobs w) then Some capture_job_id else None);
                w1 = post env subscription (subscription_id, capture_job) w
            in if accepted response
               then (Returned, emit (Log_Delivered subscription_id capture_job_id) w1)
               else
                 let w2 = emit (Log_DeliveryFailed subscription_id capture_job_id retries
                                  (WEBHOOK_MAX_RETRIES env)) w1
                 in case retry (WEBHOOK_MAX_RETRIES env) retries subscription_id
                           capture_job_id (2 ^ retries) w2 of
                      (True, w3) \<Rightarrow> (Raised (Retry (2 ^ retries)), w3)
                    | (False, w3) \<Rightarrow>
                        (Returned,
                         send_template_email subscription subscription_id capture_job
                           (emit (Log_PermanentlyFailed subscription_id capture_job_id) w3)))"

text \<open>
  The task substrate runs the task and, each time it raises \<open>Retry\<close>, runs it again with
  the retry counter one higher. The list holds the answers of the callback to the
  successive attempts; the run has no result when the list ends while a retry is due.
\<close>

fun deliver ::
  "webhook_env \<Rightarrow> nat \<Rightarrow> nat \<Rightarrow> nat \<Rightarrow> http_outcome list \<Rightarrow> world \<Rightarrow> (outcome \<times> world) option" where
  "deliver env retries subscription_id capture_job_id [] w = None"
| "deliver env retries subscription_id capture_job_id (r # rs) w =
     (case dispatch_webhook env retries subscription_id capture_job_id r w of
        (Raised (Retry countdown), w') \<Rightarrow> deliver env (Suc retries) subscription_id capture_job_id rs w'
      | (result, w') \<Rightarrow> Some (result, w'))"

section \<open>Concurrent reservation\<close>

text \<open>
  Modelled from the spec: the body of \<open>CaptureJob.get_next_job\<close> lives in
  \<open>main/models.py\<close>, which is not among the source files; the test
  \<open>test_race_condition_prevented\<close> calls it from two threads with a pause between
  reading the candidate and claiming it. Following section 4.1 of the spec, a call first
  reads the next eligible job, and later claims it with a compare-and-swap on the status:
  the claim succeeds only if the job is still Pending, and then flips it to InProgress and
  sets \<open>capture_start_time\<close> in the same step; a contended claim falls through to reading
  the next candidate. Each of the two steps is indivisible, and the steps of different
  callers interleave in any order: a schedule lists which caller moves next. A caller is
  either about to read (\<open>Calling\<close>), holds a candidate it has read but not yet claimed
  (\<open>Candidate\<close>), or has returned (\<open>Result\<close>).
\<close>

datatype caller = Calling | Candidate nat | Result "nat option"

definition caller_step :: "nat \<Rightarrow> caller list \<times> world \<Rightarrow> caller list \<times> world" where
  "caller_step x cfg =
     (case cfg of (cs, w) \<Rightarrow>
        if x < length cs then
          (case cs ! x of
             Calling \<Rightarrow>
               (case select_next_job w of
                  None \<Rightarrow> (cs[x := Result None], w)
                | Some c \<Rightarrow> (cs[x := Candidate c], w))
           | Candidate c \<Rightarrow>
               if c < length (jobs w) \<and> status (jobs w ! c) = Pending
               then (cs[x := Result (Some c)], reserve c w)
               else (cs[x := Calling], w)
           | Result r \<Rightarrow> (cs, w))
        else (cs, w))"

definition run_callers :: "nat list \<Rightarrow> caller list \<times> world \<Rightarrow> caller list \<times> world" where
  "run_callers schedule cfg = fold caller_step schedule cfg"

definition returned :: "caller \<Rightarrow> nat list" where
  "returned c = (case c of Result (Some j) \<Rightarrow> [j] | _ \<Rightarrow> [])"

definition returned_jobs :: "caller list \<Rightarrow> nat list" where
  "returned_jobs cs = concat (map returned cs)"

definition has_result :: "caller \<Rightarrow> bool" where
  "has_result c = (case c of Result r \<Rightarrow> True | _ \<Rightarrow> False)"

definition finished :: "caller list \<Rightarrow> bool" where
  "finished cs = list_all has_result cs"

fun productive :: "nat list \<Rightarrow> caller list \<times> world \<Rightarrow> bool" where
  "productive [] cfg = True"
| "productive (x # xs) cfg =
     (x < length (fst cfg) \<and> \<not> has_result (fst cfg ! x) \<and> productive xs (caller_step x cfg))"

text \<open>
  The measure that bounds the number of steps: a read costs one unit, a claim one unit, and
  a candidate that another caller has claimed in the meantime costs a failed claim and a
  new read on top.
\<close>

definition weight :: "world \<Rightarrow> caller \<Rightarrow> nat" where
  "weight w c =
     (case c of
        Calling \<Rightarrow> 2
      | Candidate j \<Rightarrow> if j \<in> set (pending_ids w) then 1 else 3
      | Result r \<Rightarrow> 0)"

definition effort :: "caller list \<times> world \<Rightarrow> nat" where
  "effort cfg =
     (case cfg of (cs, w) \<Rightarrow>
        2 * length cs * length (pending_ids w) + sum_list (map (weight w) cs))"

text \<open>
  The invariant of concurrent reservation, relative to the world \<open>w0\<close> the callers
  started in: no job has been returned twice, the jobs still pending are those of \<open>w0\<close>
  that have not been returned, every returned job is in progress with its start time
  set, and a caller has returned nothing only if no job is pending.
\<close>

definition race_free :: "world \<Rightarrow> caller list \<times> world \<Rightarrow> bool" where
  "race_free w0 cfg =
     (case cfg of (cs, w) \<Rightarrow>
        distinct (returned_jobs cs) \<and>
        pending_ids w = filter (\<lambda>i. i \<notin> set (returned_jobs cs)) (pending_ids w0) \<and>
        set (returned_jobs cs) \<subseteq> set (pending_ids w0) \<and>
        (\<forall>j \<in> set (returned_jobs cs).
           status (jobs w ! j) = InProgress \<and> capture_start_time (jobs w ! j) \<noteq> None) \<and>
        (Result None \<in> set cs \<longrightarrow> pending_ids w = []))"

section \<open>Example inputs\<close>

definition reap_example :: world where
  "reap_example =
     empty_world\<lparr>jobs :=
       [\<lparr>user_id = 1, human = True, submitted = 0, requested_url = ''example.com'',
         validated_url = None, status = InProgress, step_count = 0, step_description = [],
         message = [], capture_start_time = Some 1000, capture_end_time = None\<rparr>,
        \<lparr>user_id = 1, human = True, submitted = 1, requested_url = ''example.com'',
         validated_url = None, status = InProgress, step_count = 0, step_description = [],
         message = [], capture_start_time = Some 520, capture_end_time = None\<rparr>,
        \<lparr>user_id = 2, human = False, submitted = 2, requested_url = ''example.com'',
         validated_url = None, status = Pending, step_count = 0, step_description = [],
         message = [], capture_start_time = None, capture_end_time = None\<rparr>],
       now := 1001\<rparr>"

definition hook_subscription :: webhook_subscription where
  "hook_subscription =
     \<lparr>owner_email = ''owner@example.com'', callback_url = ''https://example.com/hook'',
      signing_key = ''key'', signing_key_algorithm = ''sha256''\<rparr>"

definition hook_env :: webhook_env where
  "hook_env =
     \<lparr>DISPATCH_WEBHOOKS = True, WEBHOOK_MAX_RETRIES = 3,
      subscriptions = (\<lambda>i. if i = 7 then Some hook_subscription else None),
      sign_data = (\<lambda>body key algorithm. key @ algorithm)\<rparr>"

definition example_env :: capture_env where
  "example_env =
     \<lparr>validate_and_clean = validate_and_clean_url, from_env_ok = True, create_ok = True,
      start_ok = True, stdout_stream = [''status 1'', ''status 2''], interrupt = None,
      first_wait = WaitReturned (Some 0), second_wait = WaitReturned (Some 0),
      artifact_exists = True, remove_ok = True, close_ok = True,
      file_hash = (''abc'', ''sha256''), file_size = 1024, storage_save_ok = True,
      storage_url = ''https://storage.example.com/file.wacz?Expires=100'',
      url_expires = Some 100, filename = 1\<rparr>"

definition killed_env :: capture_env where
  "killed_env =
     example_env\<lparr>first_wait := WaitConnectionError, second_wait := WaitReturned (Some 137)\<rparr>"

definition interrupted_env :: capture_env where
  "interrupted_env = killed_env\<lparr>interrupt := Some (1, SoftTimeLimitExceeded)\<rparr>"

definition storage_down_env :: capture_env where
  "storage_down_env = killed_env\<lparr>storage_save_ok := False\<rparr>"

definition one_job_world :: world where
  "one_job_world = submit_job 1 True ''  example.com  '' empty_world"


definition cleanup_fails_env :: capture_env where
  "cleanup_fails_env = example_env\<lparr>remove_ok := False\<rparr>"

definition queue_test_world :: world where
  "queue_test_world =
     submit_job 2 True ''example.com''
       (submit_job 1 True ''example.com''
         (submit_job 1 True ''example.com''
           (submit_job 1 True ''example.com''
             (submit_job 2 False ''example.com''
               (submit_job 2 True ''example.com''
                 (submit_job 1 True ''example.com''
                   (submit_job 1 True ''example.com''
                     (submit_job 1 True ''example.com'' empty_world))))))))"

definition two_job_world :: world where
  "two_job_world =
     submit_job 2 False ''example.com'' (submit_job 1 False ''example.com'' empty_world)"

section \<open>Reaping: idempotent and exact\<close>

lemma timed_out_mark_failed: "\<not> timed_out limit t (mark_failed msg t' j)"
  by (simp add: timed_out_def mark_failed_def)

lemma reap_length: "length (jobs (clean_up_failed_captures limit w)) = length (jobs w)"
  by (simp add: clean_up_failed_captures_def)

lemma reap_now: "now (clean_up_failed_captures limit w) = now w"
  by (simp add: clean_up_failed_captures_def)

lemma reap_row:
  assumes "i < length (jobs w)"
  shows "jobs (clean_up_failed_captures limit w) ! i =
         (if timed_out limit (now w) (jobs w ! i)
          then mark_failed ''Timed out.'' (now w) (jobs w ! i) else jobs w ! i)"
  using assms by (simp add: clean_up_failed_captures_def)

lemma reap_idem:
  "clean_up_failed_captures limit (clean_up_failed_captures limit w) =
   clean_up_failed_captures limit w"
proof -
  let ?f = "\<lambda>j. if timed_out limit (now w) j then mark_failed ''Timed out.'' (now w) j else j"
  have f: "?f (?f j) = ?f j" for j
    by (simp add: timed_out_mark_failed)
  have m: "map ?f (map ?f xs) = map ?f xs" for xs
    by (induction xs) (simp_all add: f del: map_map)
  have "clean_up_failed_captures limit (clean_up_failed_captures limit w) =
     w\<lparr>jobs := map ?f (map ?f (jobs w))\<rparr>"
    by (simp add: clean_up_failed_captures_def del: map_map)
  also have "\<dots> = clean_up_failed_captures limit w"
    by (simp only: m clean_up_failed_captures_def)
  finally show ?thesis .
qed

lemma reap_nothing_stale:
  assumes "\<forall>j \<in> set (jobs w). \<not> timed_out limit (now w) j"
  shows "clean_up_failed_captures limit w = w"
proof -
  have "map (\<lambda>j. if timed_out limit (now w) j then mark_failed ''Timed out.'' (now w) j else j)
          (jobs w) = jobs w"
    using assms by (intro map_idI) simp
  then show ?thesis
    by (simp add: clean_up_failed_captures_def)
qed

text \<open>
  Claim C5. Reaping is idempotent and exact. A row that is in progress and whose
  \<open>capture_start_time\<close> is not older than the hard time limit is left as it is; a row that
  is in progress and older than the limit becomes Failed with the message \<open>Timed out.\<close>
  under the non-field-errors key; a row in any other status is left as it is; a state
  with no stale row is left as it is as a whole; and reaping the reaped state changes
  nothing, so the stale row is failed exactly once.
\<close>

theorem reap_idempotent_and_exact:
  "(\<forall>i < length (jobs w). \<forall>c.
       status (jobs w ! i) = InProgress \<and> capture_start_time (jobs w ! i) = Some c \<and>
       \<not> c < now w - limit \<longrightarrow>
       jobs (clean_up_failed_captures limit w) ! i = jobs w ! i) \<and>
   (\<forall>i < length (jobs w). \<forall>c.
       status (jobs w ! i) = InProgress \<and> capture_start_time (jobs w ! i) = Some c \<and>
       c < now w - limit \<longrightarrow>
       status (jobs (clean_up_failed_captures limit w) ! i) = Failed \<and>
       message (jobs (clean_up_failed_captures limit w) ! i) =
         [(NON_FIELD_ERRORS_KEY, [''Timed out.''])]) \<and>
   (\<forall>i < length (jobs w).
       status (jobs w ! i) \<noteq> InProgress \<longrightarrow>
       jobs (clean_up_failed_captures limit w) ! i = jobs w ! i) \<and>
   ((\<forall>j \<in> set (jobs w). \<not> timed_out limit (now w) j) \<longrightarrow>
       clean_up_failed_captures limit w = w) \<and>
   clean_up_failed_captures limit (clean_up_failed_captures limit w) =
     clean_up_failed_captures limit w"
proof (intro conjI allI impI)
  fix i c
  assume "i < length (jobs w)"
    and "status (jobs w ! i) = InProgress \<and> capture_start_time (jobs w ! i) = Some c \<and>
         \<not> c < now w - limit"
  then show "jobs (clean_up_failed_captures limit w) ! i = jobs w ! i"
    by (simp add: reap_row timed_out_def)
next
  fix i c
  assume i: "i < length (jobs w)"
    and st: "status (jobs w ! i) = InProgress \<and> capture_start_time (jobs w ! i) = Some c \<and>
         c < now w - limit"
  then have "timed_out limit (now w) (jobs w ! i)"
    by (simp add: timed_out_def)
  with i show "status (jobs (clean_up_failed_captures limit w) ! i) = Failed"
    by (simp add: reap_row mark_failed_def)
  from i \<open>timed_out limit (now w) (jobs w ! i)\<close>
  show "message (jobs (clean_up_failed_captures limit w) ! i) =
         [(NON_FIELD_ERRORS_KEY, [''Timed out.''])]"
    by (simp add: reap_row mark_failed_def)
next
  fix i
  assume "i < length (jobs w)" and "status (jobs w ! i) \<noteq> InProgress"
  then show "jobs (clean_up_failed_captures limit w) ! i = jobs w ! i"
    by (simp add: reap_row timed_out_def)
next
  assume "\<forall>j \<in> set (jobs w). \<not> timed_out limit (now w) j"
  then show "clean_up_failed_captures limit w = w"
    by (rule reap_nothing_stale)
next
  show "clean_up_failed_captures limit (clean_up_failed_captures limit w) =
     clean_up_failed_captures limit w"
    by (rule reap_idem)
qed

theorem reap_idempotent_and_exact_witness:
  "jobs (clean_up_failed_captures CELERY_TASK_TIME_LIMIT reap_example) ! 0 = jobs reap_example ! 0 \<and>
   status (jobs (clean_up_failed_captures CELERY_TASK_TIME_LIMIT reap_example) ! 1) = Failed \<and>
   message (jobs (clean_up_failed_captures CELERY_TASK_TIME_LIMIT reap_example) ! 1) =
     [(NON_FIELD_ERRORS_KEY, [''Timed out.''])] \<and>
   jobs (clean_up_failed_captures CELERY_TASK_TIME_LIMIT reap_example) ! 2 = jobs reap_example ! 2 \<and>
   clean_up_failed_captures CELERY_TASK_TIME_LIMIT
     (clean_up_failed_captures CELERY_TASK_TIME_LIMIT reap_example) =
   clean_up_failed_captures CELERY_TASK_TIME_LIMIT reap_example"
proof -
  note T = reap_idempotent_and_exact [of reap_example CELERY_TASK_TIME_LIMIT]
  have len: "length (jobs reap_example) = 3"
    by (simp add: reap_example_def)
  have fresh: "jobs (clean_up_failed_captures CELERY_TASK_TIME_LIMIT reap_example) ! 0 =
      jobs reap_example ! 0"
    using T [THEN conjunct1, rule_format, of 0 1000]
    by (simp add: reap_example_def CELERY_TASK_TIME_LIMIT_def)
  have stale: "status (jobs (clean_up_failed_captures CELERY_TASK_TIME_LIMIT reap_example) ! 1) = Failed \<and>
      message (jobs (clean_up_failed_captures CELERY_TASK_TIME_LIMIT reap_example) ! 1) =
        [(NON_FIELD_ERRORS_KEY, [''Timed out.''])]"
    using T [THEN conjunct2, THEN conjunct1, rule_format, of 1 520]
    by (simp add: reap_example_def CELERY_TASK_TIME_LIMIT_def)
  have other: "jobs (clean_up_failed_captures CELERY_TASK_TIME_LIMIT reap_example) ! 2 =
      jobs reap_example ! 2"
    using T [THEN conjunct2, THEN conjunct2, THEN conjunct1, rule_format, of 2]
    by (simp add: reap_example_def)
  from fresh stale other T show ?thesis
    by blast
qed

section \<open>Fair queue: position and retrieval order agree\<close>

lemma least_by_mem: "least_by lt xs = Some x \<Longrightarrow> x \<in> set xs"
  by (induction xs arbitrary: x) (auto split: option.splits if_splits)

lemma least_by_None: "least_by lt xs = None \<longleftrightarrow> xs = []"
  by (induction xs) (auto split: option.splits)

lemma pending_ids_iff:
  "i \<in> set (pending_ids w) \<longleftrightarrow> i < length (jobs w) \<and> status (jobs w ! i) = Pending"
  by (auto simp: pending_ids_def)

lemma least_by_least:
  assumes tr: "\<And>a b c. lt a b \<Longrightarrow> lt b c \<Longrightarrow> lt a c"
    and tot: "\<And>a b. a \<noteq> b \<Longrightarrow> lt a b \<or> lt b a"
  shows "least_by lt xs = Some m \<Longrightarrow> y \<in> set xs \<Longrightarrow> y \<noteq> m \<Longrightarrow> lt m y"
proof (induction xs arbitrary: m y)
  case Nil
  then show ?case by simp
next
  case (Cons x xs)
  show ?case
  proof (cases "least_by lt xs")
    case None
    then have "xs = []" by (simp add: least_by_None)
    with Cons.prems show ?thesis by simp
  next
    case (Some z)
    note IH = Cons.IH [OF Some]
    show ?thesis
    proof (cases "lt z x")
      case True
      with Some Cons.prems have m: "m = z" by simp
      from Cons.prems(2) have "y = x \<or> y \<in> set xs" by simp
      then show ?thesis
      proof
        assume "y = x" with True m show ?thesis by simp
      next
        assume "y \<in> set xs" with IH Cons.prems(3) m show ?thesis by simp
      qed
    next
      case False
      with Some Cons.prems have m: "m = x" by simp
      from Cons.prems(2,3) m have yin: "y \<in> set xs" by auto
      show ?thesis
      proof (cases "z = x")
        case True
        with IH [OF yin] Cons.prems(3) m show ?thesis by simp
      next
        case zx: False
        with False tot have xz: "lt x z" by blast
        show ?thesis
        proof (cases "y = z")
          case True with xz m show ?thesis by simp
        next
          case False
          from IH [OF yin False] xz m show ?thesis by (blast intro: tr)
        qed
      qed
    qed
  qed
qed

lemma older_trans: "older w a b \<Longrightarrow> older w b c \<Longrightarrow> older w a c"
  by (auto simp: older_def)

lemma older_total: "a \<noteq> b \<Longrightarrow> older w a b \<or> older w b a"
  by (auto simp: older_def)

lemma older_irrefl [simp]: "\<not> older w a a"
  by (simp add: older_def)

lemma older_asym: "older w a b \<Longrightarrow> \<not> older w b a"
  by (auto simp: older_def)

lemma user_before_trans: "user_before w a b \<Longrightarrow> user_before w b c \<Longrightarrow> user_before w a c"
  by (auto simp: user_before_def)

lemma user_before_total: "a \<noteq> b \<Longrightarrow> user_before w a b \<or> user_before w b a"
  by (auto simp: user_before_def)

lemma user_before_irrefl [simp]: "\<not> user_before w a a"
  by (simp add: user_before_def)

lemma user_before_asym: "user_before w a b \<Longrightarrow> \<not> user_before w b a"
  by (auto simp: user_before_def)

lemma oldest_least:
  "oldest w xs = Some m \<Longrightarrow> y \<in> set xs \<Longrightarrow> y \<noteq> m \<Longrightarrow> older w m y"
  unfolding oldest_def
  by (rule least_by_least [where lt = "older w", OF older_trans older_total])

lemma next_user_least:
  "next_user w = Some u \<Longrightarrow> v \<in> set (rotation w) \<Longrightarrow> v \<noteq> u \<Longrightarrow> user_before w u v"
  unfolding next_user_def
  by (rule least_by_least [where lt = "user_before w", OF user_before_trans user_before_total])

lemma distinct_pending [simp]: "distinct (pending_ids w)" "distinct (human_pending w)"
  "distinct (robot_pending w)" "distinct (user_queue w u)"
  by (simp_all add: pending_ids_def human_pending_def robot_pending_def user_queue_def)

lemma human_pending_iff:
  "i \<in> set (human_pending w) \<longleftrightarrow> i \<in> set (pending_ids w) \<and> human (jobs w ! i)"
  by (auto simp: human_pending_def)

lemma robot_pending_iff:
  "i \<in> set (robot_pending w) \<longleftrightarrow> i \<in> set (pending_ids w) \<and> \<not> human (jobs w ! i)"
  by (auto simp: robot_pending_def)

lemma user_queue_iff:
  "i \<in> set (user_queue w u) \<longleftrightarrow> i \<in> set (human_pending w) \<and> user_id (jobs w ! i) = u"
  by (auto simp: user_queue_def)

lemma rotation_iff:
  "u \<in> set (rotation w) \<longleftrightarrow> (\<exists>i \<in> set (human_pending w). user_id (jobs w ! i) = u)"
  by (auto simp: rotation_def)

lemma length_filter_remove:
  assumes "distinct xs" and "x \<in> set xs" and "P x"
  shows "length (filter P xs) = Suc (length (filter P (filter (\<lambda>y. y \<noteq> x) xs)))"
  using assms
proof (induction xs)
  case Nil
  then show ?case by simp
next
  case (Cons a xs)
  show ?case
  proof (cases "a = x")
    case True
    with Cons.prems have "filter (\<lambda>y. y \<noteq> x) xs = xs"
      by (auto intro: filter_id_conv [THEN iffD2])
    with True Cons.prems show ?thesis by simp
  next
    case False
    with Cons show ?thesis by simp
  qed
qed

lemma reserve_length [simp]: "length (jobs (reserve i w)) = length (jobs w)"
  by (simp add: reserve_def update_job_def)

lemma reserve_now [simp]: "now (reserve i w) = now w + 1"
  by (simp add: reserve_def update_job_def)

lemma reserve_row:
  "jobs (reserve i w) ! j =
     (if j = i \<and> i < length (jobs w)
      then (jobs w ! i)\<lparr>status := InProgress, capture_start_time := Some (now w)\<rparr>
      else jobs w ! j)"
  by (cases "i < length (jobs w)") (simp_all add: reserve_def update_job_def nth_list_update list_update_beyond)

lemma reserve_fields [simp]:
  "user_id (jobs (reserve i w) ! j) = user_id (jobs w ! j)"
  "human (jobs (reserve i w) ! j) = human (jobs w ! j)"
  "submitted (jobs (reserve i w) ! j) = submitted (jobs w ! j)"
  by (simp_all add: reserve_row)

lemma reserve_older [simp]: "older (reserve i w) = older w"
  by (intro ext) (simp add: older_def)

lemma reserve_pending_ids:
  assumes "i \<in> set (pending_ids w)"
  shows "pending_ids (reserve i w) = filter (\<lambda>j. j \<noteq> i) (pending_ids w)"
proof -
  from assms have i: "i < length (jobs w)" by (simp add: pending_ids_iff)
  have "filter (\<lambda>j. status (jobs (reserve i w) ! j) = Pending) [0..<length (jobs w)] =
        filter (\<lambda>j. j \<noteq> i \<and> status (jobs w ! j) = Pending) [0..<length (jobs w)]"
    using i by (intro filter_cong) (auto simp: reserve_row)
  then show ?thesis
    by (simp add: pending_ids_def conj_commute)
qed

lemma reserve_human_pending:
  assumes "i \<in> set (pending_ids w)"
  shows "human_pending (reserve i w) = filter (\<lambda>j. j \<noteq> i) (human_pending w)"
  by (simp add: human_pending_def reserve_pending_ids [OF assms] conj_commute)

lemma reserve_robot_pending:
  assumes "i \<in> set (pending_ids w)"
  shows "robot_pending (reserve i w) = filter (\<lambda>j. j \<noteq> i) (robot_pending w)"
  by (simp add: robot_pending_def reserve_pending_ids [OF assms] conj_commute)

lemma reserve_user_queue:
  assumes "i \<in> set (pending_ids w)"
  shows "user_queue (reserve i w) u = filter (\<lambda>j. j \<noteq> i) (user_queue w u)"
  by (simp add: user_queue_def reserve_human_pending [OF assms] conj_commute)

lemma filter_absent: "x \<notin> set xs \<Longrightarrow> filter (\<lambda>y. y \<noteq> x) xs = xs"
  by (induction xs) auto

lemma latest_mem: "latest ts = Some m \<Longrightarrow> Some m \<in> set ts"
  by (induction ts arbitrary: m rule: latest.induct)
     (auto split: option.splits simp: max_def split: if_splits)

lemma latest_upper: "Some c \<in> set ts \<Longrightarrow> \<exists>m. latest ts = Some m \<and> c \<le> m"
  by (induction ts rule: latest.induct) (auto split: option.splits)

lemma served_times_mem:
  "Some c \<in> set (map capture_start_time (filter P js)) \<longleftrightarrow>
     (\<exists>j < length js. P (js ! j) \<and> capture_start_time (js ! j) = Some c)"
  by (auto simp: in_set_conv_nth image_iff)

lemma clock_aheadD:
  assumes "clock_ahead w" and "j < length (jobs w)"
  shows "submitted (jobs w ! j) < now w"
    and "capture_start_time (jobs w ! j) = Some c \<Longrightarrow> c < now w"
  using assms by (auto simp: clock_ahead_def split: option.splits dest!: nth_mem)

lemma last_served_past:
  assumes "clock_ahead w" and "last_served w u = Some t"
  shows "t < now w"
proof -
  from latest_mem [OF assms(2) [unfolded last_served_def]]
  obtain j where "j < length (jobs w)" "capture_start_time (jobs w ! j) = Some t"
    unfolding served_times_mem by blast
  with clock_aheadD(2) [OF assms(1)] show ?thesis by blast
qed

lemma filter_update_unaffected:
  "i < length xs \<Longrightarrow> \<not> P (xs ! i) \<Longrightarrow> \<not> P x \<Longrightarrow> filter P (xs[i := x]) = filter P xs"
proof (induction xs arbitrary: i)
  case Nil
  then show ?case by simp
next
  case (Cons a xs)
  then show ?case by (cases i) auto
qed

lemma last_served_other:
  assumes "i < length (jobs w)" and "\<not> (human (jobs w ! i) \<and> user_id (jobs w ! i) = v)"
  shows "last_served (reserve i w) v = last_served w v"
proof -
  have "filter (\<lambda>j. human j \<and> user_id j = v) (jobs (reserve i w)) =
        filter (\<lambda>j. human j \<and> user_id j = v) (jobs w)"
    unfolding reserve_def update_job_def using assms
    by (simp add: filter_update_unaffected)
  then show ?thesis by (simp add: last_served_def)
qed

lemma last_served_self:
  assumes ca: "clock_ahead w" and i: "i < length (jobs w)" and h: "human (jobs w ! i)"
  shows "last_served (reserve i w) (user_id (jobs w ! i)) = Some (now w)"
proof -
  let ?u = "user_id (jobs w ! i)"
  let ?P = "\<lambda>j. human j \<and> user_id j = ?u"
  let ?ts = "map capture_start_time (filter ?P (jobs (reserve i w)))"
  have "Some (now w) \<in> set ?ts"
    unfolding served_times_mem using i h
    by (intro exI [of _ i]) (simp add: reserve_row)
  from latest_upper [OF this] obtain m where m: "latest ?ts = Some m" "now w \<le> m"
    by blast
  from latest_mem [OF m(1)] obtain j where j: "j < length (jobs w)"
    "capture_start_time (jobs (reserve i w) ! j) = Some m"
    unfolding served_times_mem by auto
  have "m = now w"
  proof (cases "j = i")
    case True
    with j i show ?thesis by (simp add: reserve_row)
  next
    case False
    with j have "capture_start_time (jobs w ! j) = Some m" by (simp add: reserve_row)
    from clock_aheadD(2) [OF ca j(1) this] m(2) show ?thesis by simp
  qed
  with m(1) show ?thesis by (simp add: last_served_def)
qed

lemma reserve_clock_ahead:
  assumes "clock_ahead w"
  shows "clock_ahead (reserve i w)"
  unfolding clock_ahead_def
proof
  fix j assume "j \<in> set (jobs (reserve i w))"
  then obtain k where k: "k < length (jobs w)" "j = jobs (reserve i w) ! k"
    by (auto simp: in_set_conv_nth)
  from clock_aheadD [OF assms k(1)] k
  show "submitted j < now (reserve i w) \<and>
        (case capture_start_time j of None \<Rightarrow> True | Some c \<Rightarrow> c < now (reserve i w))"
    by (auto simp: reserve_row split: option.splits)
qed

lemma rotation_time_past:
  assumes ca: "clock_ahead w" and v: "v \<in> set (rotation w)"
  shows "rotation_time w v < now w"
proof -
  from v have "user_queue w v \<noteq> []"
    by (auto simp: rotation_iff user_queue_def filter_empty_conv)
  then obtain k where k: "oldest w (user_queue w v) = Some k"
    by (cases "oldest w (user_queue w v)") (auto simp: oldest_def least_by_None)
  then have "k \<in> set (user_queue w v)"
    by (simp add: oldest_def least_by_mem)
  then have "k < length (jobs w)"
    by (simp add: user_queue_iff human_pending_iff pending_ids_iff)
  from clock_aheadD(1) [OF ca this] last_served_past [OF ca] k show ?thesis
    by (auto simp: rotation_time_def split: option.splits)
qed

lemma rotation_time_other:
  assumes i: "i \<in> set (human_pending w)" and v: "v \<noteq> user_id (jobs w ! i)"
  shows "rotation_time (reserve i w) v = rotation_time w v"
proof -
  from i have p: "i \<in> set (pending_ids w)" and il: "i < length (jobs w)"
    by (simp_all add: human_pending_iff pending_ids_iff)
  have "i \<notin> set (user_queue w v)" using v by (auto simp: user_queue_iff)
  then have q: "user_queue (reserve i w) v = user_queue w v"
    by (simp add: reserve_user_queue [OF p] filter_absent)
  have l: "last_served (reserve i w) v = last_served w v"
    using v by (intro last_served_other [OF il]) auto
  show ?thesis
    by (simp add: rotation_time_def q l oldest_def split: option.splits)
qed

lemma rotation_time_self:
  assumes ca: "clock_ahead w" and i: "i \<in> set (human_pending w)"
    and q: "user_queue (reserve i w) (user_id (jobs w ! i)) \<noteq> []"
  shows "rotation_time (reserve i w) (user_id (jobs w ! i)) = now w"
proof -
  let ?u = "user_id (jobs w ! i)"
  from i have p: "i \<in> set (pending_ids w)" and il: "i < length (jobs w)"
    and h: "human (jobs w ! i)"
    by (simp_all add: human_pending_iff pending_ids_iff)
  from q obtain k where k: "oldest (reserve i w) (user_queue (reserve i w) ?u) = Some k"
    by (cases "oldest (reserve i w) (user_queue (reserve i w) ?u)")
       (auto simp: oldest_def least_by_None)
  then have "k \<in> set (user_queue (reserve i w) ?u)"
    by (simp add: oldest_def least_by_mem)
  then have "k < length (jobs w)"
    by (simp add: reserve_user_queue [OF p] user_queue_iff human_pending_iff pending_ids_iff)
  from clock_aheadD(1) [OF ca this] have "submitted (jobs w ! k) < now w" .
  with k last_served_self [OF ca il h] show ?thesis
    by (simp add: rotation_time_def)
qed

lemma head_of_queue:
  assumes "oldest w (user_queue w u) = Some i"
  shows "i \<in> set (user_queue w u)" and "i \<in> set (human_pending w)"
    and "i \<in> set (pending_ids w)" and "user_id (jobs w ! i) = u" and "turn w i = 0"
proof -
  from assms show q: "i \<in> set (user_queue w u)"
    by (simp add: oldest_def least_by_mem)
  then show "i \<in> set (human_pending w)" and "i \<in> set (pending_ids w)"
    and u: "user_id (jobs w ! i) = u"
    by (simp_all add: user_queue_iff human_pending_iff)
  have "\<not> older w k i" if "k \<in> set (user_queue w u)" for k
    using oldest_least [OF assms that] older_asym [of w i k] by (cases "k = i") auto
  then show "turn w i = 0"
    by (simp add: turn_def u filter_empty_conv)
qed

lemma turn_same_user:
  assumes o: "oldest w (user_queue w u) = Some i"
    and j: "j \<in> set (user_queue w u)" and ne: "j \<noteq> i"
  shows "turn w j = Suc (turn (reserve i w) j)"
proof -
  note H = head_of_queue [OF o]
  from j have uj: "user_id (jobs w ! j) = u" by (simp add: user_queue_iff)
  have "older w i j" using oldest_least [OF o j ne] .
  from length_filter_remove [OF distinct_pending(4) H(1), of "\<lambda>k. older w k j", OF this]
  show ?thesis
    by (simp add: turn_def reserve_user_queue [OF H(3)] uj)
qed

lemma turn_other_user:
  assumes i: "i \<in> set (human_pending w)" and ne: "user_id (jobs w ! j) \<noteq> user_id (jobs w ! i)"
  shows "turn (reserve i w) j = turn w j"
proof -
  from i have p: "i \<in> set (pending_ids w)" by (simp add: human_pending_iff)
  have "i \<notin> set (user_queue w (user_id (jobs w ! j)))"
    using ne by (auto simp: user_queue_iff)
  then show ?thesis
    by (simp add: turn_def reserve_user_queue [OF p] filter_absent)
qed

lemma served_before_step:
  assumes ca: "clock_ahead w" and nu: "next_user w = Some u"
    and o: "oldest w (user_queue w u) = Some i"
    and j: "j \<in> set (human_pending w)" "j \<noteq> i"
    and k: "k \<in> set (human_pending w)" "k \<noteq> i"
  shows "served_before (reserve i w) j k \<longleftrightarrow> served_before w j k"
proof -
  note H = head_of_queue [OF o]
  let ?w' = "reserve i w"
  let ?uj = "user_id (jobs w ! j)" and ?uk = "user_id (jobs w ! k)"
  have rot: "?uj \<in> set (rotation w)" "?uk \<in> set (rotation w)"
    using j k by (auto simp: rotation_iff)
  have other: "turn ?w' x = turn w x" if "user_id (jobs w ! x) \<noteq> u" for x
    using turn_other_user [OF H(2), of x] that H(4) by simp
  have same: "turn w x = Suc (turn ?w' x)"
    if "x \<in> set (human_pending w)" "x \<noteq> i" "user_id (jobs w ! x) = u" for x
    using turn_same_user [OF o, of x] that by (simp add: user_queue_iff)
  have rt: "rotation_time ?w' v = rotation_time w v" if "v \<noteq> u" for v
    using rotation_time_other [OF H(2), of v] that H(4) by simp
  have ub: "user_before ?w' a b \<longleftrightarrow> user_before w a b" if "a \<noteq> u" "b \<noteq> u" for a b
    using that by (simp add: user_before_def rt)
  have first: "user_before w u v" if "v \<in> set (rotation w)" "v \<noteq> u" for v
    using next_user_least [OF nu that] .
  have last: "user_before ?w' v u \<and> \<not> user_before ?w' u v"
    if "v \<in> set (rotation w)" "v \<noteq> u" "x \<in> set (human_pending w)" "x \<noteq> i"
      "user_id (jobs w ! x) = u" for v x
  proof -
    have "x \<in> set (user_queue ?w' u)"
      using that by (simp add: reserve_user_queue [OF H(3)] user_queue_iff)
    then have "user_queue ?w' (user_id (jobs w ! i)) \<noteq> []"
      using H(4) by auto
    from rotation_time_self [OF ca H(2) this] have "rotation_time ?w' u = now w"
      by (simp add: H(4))
    moreover have "rotation_time ?w' v < now w"
      using rotation_time_past [OF ca that(1)] rt [OF that(2)] by simp
    ultimately show ?thesis
      by (simp add: user_before_def)
  qed
  show ?thesis
  proof (cases "?uj = u")
    case ju: True
    show ?thesis
    proof (cases "?uk = u")
      case True
      with ju same [OF j ju] same [OF k True] show ?thesis
        by (simp add: served_before_def)
    next
      case False
      from first [OF rot(2) False] have "\<not> user_before w ?uk u" "user_before w u ?uk"
        by (auto dest: user_before_asym)
      with ju False same [OF j ju] other [OF False] last [OF rot(2) False j ju]
      show ?thesis
        by (auto simp: served_before_def)
    qed
  next
    case ju: False
    show ?thesis
    proof (cases "?uk = u")
      case True
      from first [OF rot(1) ju] have "\<not> user_before w ?uj u" "user_before w u ?uj"
        by (auto dest: user_before_asym)
      with ju True same [OF k True] other [OF ju] last [OF rot(1) ju k True]
      show ?thesis
        by (auto simp: served_before_def)
    next
      case False
      with ju other [OF ju] other [OF False] ub [OF ju False] show ?thesis
        by (simp add: served_before_def)
    qed
  qed
qed

lemma head_served_first:
  assumes nu: "next_user w = Some u" and o: "oldest w (user_queue w u) = Some i"
    and j: "j \<in> set (human_pending w)" "j \<noteq> i"
  shows "served_before w i j" and "\<not> served_before w j i"
proof -
  note H = head_of_queue [OF o]
  have "served_before w i j \<and> \<not> served_before w j i"
  proof (cases "user_id (jobs w ! j) = u")
    case True
    with j have "j \<in> set (user_queue w u)" by (simp add: user_queue_iff)
    from turn_same_user [OF o this j(2)] H(5) show ?thesis
      by (simp add: served_before_def)
  next
    case False
    have "user_id (jobs w ! j) \<in> set (rotation w)"
      using j by (auto simp: rotation_iff)
    from next_user_least [OF nu this False]
    have "user_before w u (user_id (jobs w ! j))" .
    with user_before_asym [OF this] H(4,5) show ?thesis
      by (auto simp: served_before_def)
  qed
  then show "served_before w i j" and "\<not> served_before w j i" by simp_all
qed

lemma served_before_irrefl [simp]: "\<not> served_before w j j"
  by (simp add: served_before_def)

lemma position_human_head:
  assumes nu: "next_user w = Some u" and o: "oldest w (user_queue w u) = Some i"
  shows "queue_position w i = 1"
proof -
  note H = head_of_queue [OF o]
  have "\<not> served_before w k i" if "k \<in> set (human_pending w)" for k
    using head_served_first(2) [OF nu o that] by (cases "k = i") auto
  then have "filter (\<lambda>k. served_before w k i) (human_pending w) = []"
    by (simp add: filter_empty_conv)
  with H(2,3) show ?thesis
    by (simp add: queue_position_def human_pending_iff)
qed

lemma position_human_step:
  assumes ca: "clock_ahead w" and nu: "next_user w = Some u"
    and o: "oldest w (user_queue w u) = Some i"
    and j: "j \<in> set (pending_ids w)" "j \<noteq> i"
  shows "queue_position w j = Suc (queue_position (reserve i w) j)"
proof -
  note H = head_of_queue [OF o]
  let ?w' = "reserve i w"
  have jp: "j \<in> set (pending_ids ?w')"
    using j by (simp add: reserve_pending_ids [OF H(3)])
  show ?thesis
  proof (cases "human (jobs w ! j)")
    case True
    with j have jh: "j \<in> set (human_pending w)" by (simp add: human_pending_iff)
    have "filter (\<lambda>k. served_before ?w' k j) (filter (\<lambda>k. k \<noteq> i) (human_pending w)) =
          filter (\<lambda>k. served_before w k j) (filter (\<lambda>k. k \<noteq> i) (human_pending w))"
      using served_before_step [OF ca nu o _ _ jh j(2)]
      by (intro filter_cong) auto
    moreover
    from length_filter_remove [OF distinct_pending(2) H(2), of "\<lambda>k. served_before w k j",
        OF head_served_first(1) [OF nu o jh j(2)]]
    have "length (filter (\<lambda>k. served_before w k j) (human_pending w)) =
       Suc (length (filter (\<lambda>k. served_before w k j) (filter (\<lambda>k. k \<noteq> i) (human_pending w))))" .
    ultimately show ?thesis
      using True j(1) jp
      by (simp add: queue_position_def reserve_human_pending [OF H(3)])
  next
    case False
    have "i \<notin> set (robot_pending w)"
      using H(2) by (simp add: robot_pending_iff human_pending_iff)
    then have r: "robot_pending ?w' = robot_pending w"
      by (simp add: reserve_robot_pending [OF H(3)] filter_absent)
    from length_filter_remove [OF distinct_pending(2) H(2), of "\<lambda>k. True"]
    have "length (human_pending w) = Suc (length (human_pending ?w'))"
      by (simp add: reserve_human_pending [OF H(3)])
    with False j(1) jp r show ?thesis
      by (simp add: queue_position_def)
  qed
qed

lemma position_robot_head:
  assumes nu: "next_user w = None" and o: "oldest w (robot_pending w) = Some i"
  shows "queue_position w i = 1" and "i \<in> set (robot_pending w)" and "human_pending w = []"
proof -
  from nu show hp: "human_pending w = []"
    by (simp add: next_user_def least_by_None rotation_def)
  from o show r: "i \<in> set (robot_pending w)"
    by (simp add: oldest_def least_by_mem)
  have "\<not> older w k i" if "k \<in> set (robot_pending w)" for k
    using oldest_least [OF o that] older_asym [of w i k] by (cases "k = i") auto
  then have "filter (\<lambda>k. older w k i) (robot_pending w) = []"
    by (simp add: filter_empty_conv)
  with r hp show "queue_position w i = 1"
    by (simp add: queue_position_def robot_pending_iff)
qed

lemma position_robot_step:
  assumes nu: "next_user w = None" and o: "oldest w (robot_pending w) = Some i"
    and j: "j \<in> set (pending_ids w)" "j \<noteq> i"
  shows "queue_position w j = Suc (queue_position (reserve i w) j)"
proof -
  note H = position_robot_head [OF nu o]
  let ?w' = "reserve i w"
  from H(2) have ip: "i \<in> set (pending_ids w)" by (simp add: robot_pending_iff)
  have jp: "j \<in> set (pending_ids ?w')"
    using j by (simp add: reserve_pending_ids [OF ip])
  from j H(3) have jr: "j \<in> set (robot_pending w)" and nh: "\<not> human (jobs w ! j)"
    by (auto simp: robot_pending_iff human_pending_def filter_empty_conv)
  have "older w i j" using oldest_least [OF o jr j(2)] .
  from length_filter_remove [OF distinct_pending(3) H(2), of "\<lambda>k. older w k j", OF this]
  show ?thesis
    using nh j(1) jp H(3)
    by (simp add: queue_position_def reserve_human_pending [OF ip] reserve_robot_pending [OF ip])
qed

lemma select_cases:
  assumes "select_next_job w = Some i"
  obtains u where "next_user w = Some u" "oldest w (user_queue w u) = Some i"
  | "next_user w = None" "oldest w (robot_pending w) = Some i"
  using assms by (cases "next_user w") (auto simp: select_next_job_def)

lemma position_head:
  assumes "select_next_job w = Some i"
  shows "queue_position w i = 1" and "i \<in> set (pending_ids w)"
proof -
  from assms show "queue_position w i = 1"
    by (rule select_cases) (simp_all add: position_human_head position_robot_head(1))
  from assms show "i \<in> set (pending_ids w)"
    by (rule select_cases)
       (auto dest: head_of_queue(3) position_robot_head(2) simp: robot_pending_iff)
qed

lemma position_step:
  assumes "clock_ahead w" and "select_next_job w = Some i"
    and "j \<in> set (pending_ids w)" and "j \<noteq> i"
  shows "queue_position w j = Suc (queue_position (reserve i w) j)"
  using assms(2)
  by (rule select_cases)
     (simp_all add: position_human_step [OF assms(1) _ _ assms(3,4)]
        position_robot_step [OF _ _ assms(3,4)])

lemma select_next_job_None: "select_next_job w = None \<longleftrightarrow> pending_ids w = []"
proof
  assume n: "select_next_job w = None"
  show "pending_ids w = []"
  proof (cases "next_user w")
    case None
    then have "human_pending w = []"
      by (simp add: next_user_def least_by_None rotation_def)
    moreover from n None have "robot_pending w = []"
      by (simp add: select_next_job_def oldest_def least_by_None)
    ultimately have "\<forall>i \<in> set (pending_ids w). False"
      by (auto simp: human_pending_def robot_pending_def filter_empty_conv)
    then show ?thesis by (cases "pending_ids w") auto
  next
    case (Some u)
    then have "u \<in> set (rotation w)"
      by (simp add: next_user_def least_by_mem)
    then have "user_queue w u \<noteq> []"
      by (auto simp: rotation_def user_queue_def filter_empty_conv)
    with n Some show ?thesis
      by (simp add: select_next_job_def oldest_def least_by_None)
  qed
next
  assume "pending_ids w = []"
  then show "select_next_job w = None"
    by (simp add: select_next_job_def next_user_def rotation_def human_pending_def
        robot_pending_def oldest_def)
qed

lemma clock_ahead_empty: "clock_ahead empty_world"
  by (simp add: clock_ahead_def empty_world_def)

lemma clock_ahead_submit: "clock_ahead w \<Longrightarrow> clock_ahead (submit_job u h requested w)"
  by (auto simp: clock_ahead_def submit_job_def split: option.splits)

lemma position_positive: "i \<in> set (pending_ids w) \<Longrightarrow> 0 < queue_position w i"
  by (simp add: queue_position_def)

lemma length_filter_le:
  "(\<And>k. k \<in> set xs \<Longrightarrow> P k \<Longrightarrow> Q k) \<Longrightarrow> length (filter P xs) \<le> length (filter Q xs)"
  by (induction xs) auto

lemma length_filter_less:
  assumes "\<And>k. k \<in> set xs \<Longrightarrow> P k \<Longrightarrow> Q k" and "x \<in> set xs" and "Q x" and "\<not> P x"
  shows "length (filter P xs) < length (filter Q xs)"
  using assms
proof (induction xs)
  case Nil
  then show ?case by simp
next
  case (Cons a xs)
  have le: "length (filter P xs) \<le> length (filter Q xs)"
    using Cons.prems(1) by (intro length_filter_le) auto
  show ?case
  proof (cases "a = x")
    case True
    with Cons.prems le show ?thesis by simp
  next
    case False
    with Cons.prems have "length (filter P xs) < length (filter Q xs)"
      by (intro Cons.IH) auto
    with Cons.prems(1) [of a] show ?thesis by auto
  qed
qed

lemma pending_split:
  "length (pending_ids w) = length (human_pending w) + length (robot_pending w)"
  unfolding human_pending_def robot_pending_def
  by (rule sum_length_filter_compl [symmetric])

lemma position_bound:
  assumes "i \<in> set (pending_ids w)"
  shows "queue_position w i \<le> length (pending_ids w)"
proof (cases "human (jobs w ! i)")
  case True
  with assms have ih: "i \<in> set (human_pending w)" by (simp add: human_pending_iff)
  have "length (filter (\<lambda>j. served_before w j i) (human_pending w)) <
        length (filter (\<lambda>j. True) (human_pending w))"
    using ih by (intro length_filter_less [where x = i]) simp_all
  with True assms show ?thesis
    by (simp add: queue_position_def pending_split)
next
  case False
  with assms have ir: "i \<in> set (robot_pending w)" by (simp add: robot_pending_iff)
  have "length (filter (\<lambda>j. older w j i) (robot_pending w)) <
        length (filter (\<lambda>j. True) (robot_pending w))"
    using ir by (intro length_filter_less [where x = i]) simp_all
  with False assms show ?thesis
    by (simp add: queue_position_def pending_split)
qed

lemma next_jobs_position:
  "clock_ahead w \<Longrightarrow> i \<in> set (pending_ids w) \<Longrightarrow> queue_position w i = Suc k \<Longrightarrow> k < n \<Longrightarrow>
   next_jobs n w ! k = Some i"
proof (induction k arbitrary: w n)
  case 0
  from 0(2) obtain i0 where s: "select_next_job w = Some i0"
    by (cases "select_next_job w") (auto simp: select_next_job_None)
  have "i = i0"
  proof (rule ccontr)
    assume ne: "i \<noteq> i0"
    from position_step [OF 0(1) s 0(2) ne] 0(3)
    have "queue_position (reserve i0 w) i = 0" by simp
    moreover have "i \<in> set (pending_ids (reserve i0 w))"
      using 0(2) ne by (simp add: reserve_pending_ids [OF position_head(2) [OF s]])
    ultimately show False
      using position_positive by fastforce
  qed
  moreover from 0(4) obtain n' where "n = Suc n'" by (cases n) auto
  ultimately show ?case
    using s by (simp add: get_next_job_def)
next
  case (Suc k)
  from Suc(3) obtain i0 where s: "select_next_job w = Some i0"
    by (cases "select_next_job w") (auto simp: select_next_job_None)
  from position_head(1) [OF s] Suc(4) have ne: "i \<noteq> i0" by auto
  from Suc(5) obtain n' where n: "n = Suc n'" "k < n'" by (cases n) auto
  let ?w' = "reserve i0 w"
  have "queue_position ?w' i = Suc k"
    using position_step [OF Suc(2) s Suc(3) ne] Suc(4) by simp
  moreover have "i \<in> set (pending_ids ?w')"
    using Suc(3) ne by (simp add: reserve_pending_ids [OF position_head(2) [OF s]])
  ultimately have "next_jobs n' ?w' ! k = Some i"
    using reserve_clock_ahead [OF Suc(2)] n(2) by (intro Suc.IH)
  then show ?case
    using s n by (simp add: get_next_job_def)
qed

lemma served_before_trans:
  "served_before w a b \<Longrightarrow> served_before w b c \<Longrightarrow> served_before w a c"
  by (auto simp: served_before_def intro: user_before_trans)

lemma position_mono:
  assumes i: "i \<in> set (human_pending w)" and j: "j \<in> set (human_pending w)"
    and sb: "served_before w i j"
  shows "queue_position w i < queue_position w j"
proof -
  have "length (filter (\<lambda>k. served_before w k i) (human_pending w)) <
        length (filter (\<lambda>k. served_before w k j) (human_pending w))"
    using i sb
    by (intro length_filter_less [where x = i]) (auto intro: served_before_trans)
  with i j show ?thesis
    by (simp add: queue_position_def human_pending_iff)
qed

lemma turn_mono:
  assumes i: "i \<in> set (human_pending w)" and u: "user_id (jobs w ! i) = user_id (jobs w ! j)"
    and o: "older w i j"
  shows "turn w i < turn w j"
proof -
  have "i \<in> set (user_queue w (user_id (jobs w ! j)))"
    using i u by (simp add: user_queue_iff)
  then have "length (filter (\<lambda>k. older w k i) (user_queue w (user_id (jobs w ! j)))) <
        length (filter (\<lambda>k. older w k j) (user_queue w (user_id (jobs w ! j))))"
    using o by (intro length_filter_less [where x = i]) (auto intro: older_trans)
  then show ?thesis
    by (simp add: turn_def u)
qed

lemma robots_after_humans:
  assumes i: "i \<in> set (human_pending w)" and j: "j \<in> set (robot_pending w)"
  shows "queue_position w i < queue_position w j"
proof -
  have "length (filter (\<lambda>k. served_before w k i) (human_pending w)) <
        length (filter (\<lambda>k. True) (human_pending w))"
    using i by (intro length_filter_less [where x = i]) simp_all
  with i j show ?thesis
    by (simp add: queue_position_def human_pending_iff robot_pending_iff)
qed

lemma robots_fifo:
  assumes i: "i \<in> set (robot_pending w)" and j: "j \<in> set (robot_pending w)"
    and o: "older w i j"
  shows "queue_position w i < queue_position w j"
proof -
  have "length (filter (\<lambda>k. older w k i) (robot_pending w)) <
        length (filter (\<lambda>k. older w k j) (robot_pending w))"
    using i o by (intro length_filter_less [where x = i]) (auto intro: older_trans)
  with i j show ?thesis
    by (simp add: queue_position_def robot_pending_iff)
qed

text \<open>
  Claim C1. In every store whose timestamps lie in the past of the database clock, for
  every set of pending jobs: the position \<open>queue_position\<close> reports for a pending job
  is between 1 and the number of pending jobs, and it is the rank at which successive
  calls of \<open>get_next_job\<close> with reservation return that job. The order is round-robin
  over the human jobs: a job on an earlier turn of its user is served before any job on a
  later turn, and the jobs of one user are served oldest first; every robot job is served
  after every human job, and robot jobs are served oldest first. For the jobs of the queue
  test, submitted as u1, u1, u1, u2, u2 (robot), u1, u1, u1, u2, the retrieval order is
  0, 3, 1, 8, 2, 5, 6, 7, 4.
\<close>

theorem queue_position_agrees_with_get_next_job:
  assumes "clock_ahead w"
  shows "(\<forall>i \<in> set (pending_ids w).
            1 \<le> queue_position w i \<and> queue_position w i \<le> length (pending_ids w) \<and>
            next_jobs (length (pending_ids w)) w ! (queue_position w i - 1) = Some i) \<and>
         (\<forall>i \<in> set (human_pending w). \<forall>j \<in> set (human_pending w).
            turn w i < turn w j \<longrightarrow> queue_position w i < queue_position w j) \<and>
         (\<forall>i \<in> set (human_pending w). \<forall>j \<in> set (human_pending w).
            user_id (jobs w ! i) = user_id (jobs w ! j) \<and> older w i j \<longrightarrow>
            queue_position w i < queue_position w j) \<and>
         (\<forall>i \<in> set (human_pending w). \<forall>j \<in> set (robot_pending w).
            queue_position w i < queue_position w j) \<and>
         (\<forall>i \<in> set (robot_pending w). \<forall>j \<in> set (robot_pending w).
            older w i j \<longrightarrow> queue_position w i < queue_position w j)"
proof (intro conjI ballI impI)
  fix i assume i: "i \<in> set (pending_ids w)"
  from position_positive [OF i] show "1 \<le> queue_position w i" by simp
  from position_bound [OF i] show b: "queue_position w i \<le> length (pending_ids w)" .
  from position_positive [OF i] obtain k where k: "queue_position w i = Suc k"
    by (cases "queue_position w i") auto
  with b have "k < length (pending_ids w)" by simp
  from next_jobs_position [OF assms i k this] k
  show "next_jobs (length (pending_ids w)) w ! (queue_position w i - 1) = Some i" by simp
next
  fix i j assume "i \<in> set (human_pending w)" "j \<in> set (human_pending w)" "turn w i < turn w j"
  then show "queue_position w i < queue_position w j"
    by (intro position_mono) (simp_all add: served_before_def)
next
  fix i j assume i: "i \<in> set (human_pending w)" and j: "j \<in> set (human_pending w)"
    and "user_id (jobs w ! i) = user_id (jobs w ! j) \<and> older w i j"
  then have "turn w i < turn w j" by (intro turn_mono) simp_all
  with i j show "queue_position w i < queue_position w j"
    by (intro position_mono) (simp_all add: served_before_def)
next
  fix i j assume "i \<in> set (human_pending w)" "j \<in> set (robot_pending w)"
  then show "queue_position w i < queue_position w j" by (rule robots_after_humans)
next
  fix i j assume "i \<in> set (robot_pending w)" "j \<in> set (robot_pending w)" "older w i j"
  then show "queue_position w i < queue_position w j" by (rule robots_fifo)
qed

theorem queue_position_agrees_with_get_next_job_witness:
  "clock_ahead queue_test_world \<and> 8 \<in> set (pending_ids queue_test_world) \<and>
   queue_position queue_test_world 8 = 4 \<and>
   next_jobs (length (pending_ids queue_test_world)) queue_test_world !
     (queue_position queue_test_world 8 - 1) = Some 8 \<and>
   next_jobs 9 queue_test_world =
     [Some 0, Some 3, Some 1, Some 8, Some 2, Some 5, Some 6, Some 7, Some 4] \<and>
   map (queue_position queue_test_world) [0..<9] = [1, 3, 5, 2, 9, 6, 7, 8, 4] \<and>
   next_jobs 10 queue_test_world ! 9 = None"
proof -
  have c: "clock_ahead queue_test_world" by code_simp
  have p: "8 \<in> set (pending_ids queue_test_world)" by code_simp
  have q: "queue_position queue_test_world 8 = 4" by code_simp
  from queue_position_agrees_with_get_next_job [OF c, THEN conjunct1, rule_format, OF p]
  have a: "next_jobs (length (pending_ids queue_test_world)) queue_test_world !
     (queue_position queue_test_world 8 - 1) = Some 8" by blast
  have n: "next_jobs 9 queue_test_world =
     [Some 0, Some 3, Some 1, Some 8, Some 2, Some 5, Some 6, Some 7, Some 4]" by code_simp
  have m: "map (queue_position queue_test_world) [0..<9] = [1, 3, 5, 2, 9, 6, 7, 8, 4]"
    by code_simp
  have e: "next_jobs 10 queue_test_world ! 9 = None" by code_simp
  from c p q a n m e show ?thesis by (simp only: simp_thms)
qed

section \<open>Concurrent reservation is race-free\<close>

lemma returned_jobs_update:
  assumes "x < length cs"
  shows "returned_jobs (cs[x := c]) =
           returned_jobs (take x cs) @ returned c @ returned_jobs (drop (Suc x) cs)"
    and "returned_jobs cs =
           returned_jobs (take x cs) @ returned (cs ! x) @ returned_jobs (drop (Suc x) cs)"
proof -
  show "returned_jobs (cs[x := c]) =
           returned_jobs (take x cs) @ returned c @ returned_jobs (drop (Suc x) cs)"
    using assms by (simp add: returned_jobs_def upd_conv_take_nth_drop)
  have "cs = take x cs @ cs ! x # drop (Suc x) cs"
    using assms by (rule id_take_nth_drop)
  then have "returned_jobs cs = returned_jobs (take x cs @ cs ! x # drop (Suc x) cs)"
    by simp
  then show "returned_jobs cs =
           returned_jobs (take x cs) @ returned (cs ! x) @ returned_jobs (drop (Suc x) cs)"
    by (simp add: returned_jobs_def)
qed

lemma returned_jobs_same:
  assumes "x < length cs" and "returned (cs ! x) = []" and "returned c = []"
  shows "returned_jobs (cs[x := c]) = returned_jobs cs"
  using returned_jobs_update(1) [OF assms(1), of c] returned_jobs_update(2) [OF assms(1)]
    assms(2,3) by simp

lemma returned_jobs_new:
  assumes "x < length cs" and "returned (cs ! x) = []"
  shows "set (returned_jobs (cs[x := Result (Some j)])) = insert j (set (returned_jobs cs))"
    and "distinct (returned_jobs (cs[x := Result (Some j)])) \<longleftrightarrow>
           distinct (returned_jobs cs) \<and> j \<notin> set (returned_jobs cs)"
  using returned_jobs_update(1) [OF assms(1), of "Result (Some j)"]
    returned_jobs_update(2) [OF assms(1)] assms(2)
  by (auto simp: returned_def)

lemma set_update_cases:
  assumes "x < length cs" and "y \<in> set (cs[x := c])"
  shows "y = c \<or> y \<in> set cs"
  using assms by (auto simp: in_set_conv_nth nth_list_update split: if_splits)

lemma reserve_other_row:
  "j \<noteq> i \<Longrightarrow> jobs (reserve i w) ! j = jobs w ! j"
  by (simp add: reserve_row)

lemma race_free_same_world:
  assumes "race_free w0 (cs, w)" and "returned_jobs cs' = returned_jobs cs"
    and "Result None \<in> set cs' \<Longrightarrow> Result None \<in> set cs \<or> pending_ids w = []"
  shows "race_free w0 (cs', w)"
  using assms unfolding race_free_def by auto

lemma race_free_step:
  assumes inv: "race_free w0 cfg"
  shows "race_free w0 (caller_step x cfg)"
proof -
  obtain cs w where cfg: "cfg = (cs, w)" by (cases cfg)
  from inv cfg have inv': "race_free w0 (cs, w)" by simp
  from inv' have d: "distinct (returned_jobs cs)"
    and p: "pending_ids w = filter (\<lambda>i. i \<notin> set (returned_jobs cs)) (pending_ids w0)"
    and s: "set (returned_jobs cs) \<subseteq> set (pending_ids w0)"
    and r: "\<forall>j \<in> set (returned_jobs cs).
           status (jobs w ! j) = InProgress \<and> capture_start_time (jobs w ! j) \<noteq> None"
    and n: "Result None \<in> set cs \<longrightarrow> pending_ids w = []"
    unfolding race_free_def prod.case by blast+
  show ?thesis
  proof (cases "x < length cs")
    case False
    then have "caller_step x cfg = cfg" by (simp add: caller_step_def cfg)
    with inv show ?thesis by simp
  next
    case x: True
    show ?thesis
    proof (cases "cs ! x")
      case Calling
      then have e: "returned (cs ! x) = []" by (simp add: returned_def)
      show ?thesis
      proof (cases "select_next_job w")
        case None
        then have pe: "pending_ids w = []" by (simp add: select_next_job_None)
        have step: "caller_step x cfg = (cs[x := Result None], w)"
          using cfg x Calling None by (simp add: caller_step_def)
        show ?thesis
          unfolding step
          by (rule race_free_same_world [OF inv'])
             (simp_all add: returned_jobs_same [OF x e] returned_def pe)
      next
        case (Some c)
        have step: "caller_step x cfg = (cs[x := Candidate c], w)"
          using cfg x Calling Some by (simp add: caller_step_def)
        show ?thesis
          unfolding step
        proof (rule race_free_same_world [OF inv'])
          show "returned_jobs (cs[x := Candidate c]) = returned_jobs cs"
            by (simp add: returned_jobs_same [OF x e] returned_def)
          assume "Result None \<in> set (cs[x := Candidate c])"
          from set_update_cases [OF x this]
          show "Result None \<in> set cs \<or> pending_ids w = []" by simp
        qed
      qed
    next
      case (Candidate c)
      then have e: "returned (cs ! x) = []" by (simp add: returned_def)
      show ?thesis
      proof (cases "c < length (jobs w) \<and> status (jobs w ! c) = Pending")
        case False
        have step: "caller_step x cfg = (cs[x := Calling], w)"
          using cfg x Candidate False by (auto simp: caller_step_def)
        show ?thesis
          unfolding step
        proof (rule race_free_same_world [OF inv'])
          show "returned_jobs (cs[x := Calling]) = returned_jobs cs"
            by (simp add: returned_jobs_same [OF x e] returned_def)
          assume "Result None \<in> set (cs[x := Calling])"
          from set_update_cases [OF x this]
          show "Result None \<in> set cs \<or> pending_ids w = []" by simp
        qed
      next
        case True
        then have cp: "c \<in> set (pending_ids w)" by (simp add: pending_ids_iff)
        with p have c0: "c \<in> set (pending_ids w0)" and cn: "c \<notin> set (returned_jobs cs)"
          by auto
        let ?cs = "cs[x := Result (Some c)]"
        note N = returned_jobs_new [OF x e, of c]
        have step: "caller_step x cfg = (?cs, reserve c w)"
          using cfg x Candidate True by (simp add: caller_step_def)
        have 1: "distinct (returned_jobs ?cs)" using N(2) d cn by simp
        have "filter (\<lambda>j. j \<noteq> c) (filter (\<lambda>i. i \<notin> set (returned_jobs cs)) (pending_ids w0)) =
            filter (\<lambda>i. i \<notin> set (returned_jobs ?cs)) (pending_ids w0)"
          unfolding N(1) by (auto intro: filter_cong)
        then have 2: "pending_ids (reserve c w) =
            filter (\<lambda>i. i \<notin> set (returned_jobs ?cs)) (pending_ids w0)"
          unfolding reserve_pending_ids [OF cp] p .
        have 3: "set (returned_jobs ?cs) \<subseteq> set (pending_ids w0)"
          using N(1) s c0 by simp
        have 4: "\<forall>j \<in> set (returned_jobs ?cs).
           status (jobs (reserve c w) ! j) = InProgress \<and>
           capture_start_time (jobs (reserve c w) ! j) \<noteq> None"
        proof
          fix j assume "j \<in> set (returned_jobs ?cs)"
          with N(1) have "j = c \<or> j \<in> set (returned_jobs cs)" by simp
          then show "status (jobs (reserve c w) ! j) = InProgress \<and>
              capture_start_time (jobs (reserve c w) ! j) \<noteq> None"
          proof
            assume "j = c" with True show ?thesis by (simp add: reserve_row)
          next
            assume j: "j \<in> set (returned_jobs cs)"
            with cn have "j \<noteq> c" by auto
            with r j show ?thesis by (simp add: reserve_other_row)
          qed
        qed
        have 5: "Result None \<in> set ?cs \<longrightarrow> pending_ids (reserve c w) = []"
        proof
          assume a: "Result None \<in> set ?cs"
          from set_update_cases [OF x a] have "Result None \<in> set cs" by auto
          with n cp show "pending_ids (reserve c w) = []" by simp
        qed
        from 1 2 3 4 5 show ?thesis
          unfolding step race_free_def by simp
      qed
    next
      case (Result r)
      then have "caller_step x cfg = cfg" using x by (simp add: caller_step_def cfg)
      with inv show ?thesis by simp
    qed
  qed
qed

lemma race_free_run:
  "race_free w0 cfg \<Longrightarrow> race_free w0 (run_callers schedule cfg)"
  unfolding run_callers_def
  by (induction schedule arbitrary: cfg) (simp_all add: race_free_step)

lemma race_free_start: "race_free w (replicate n Calling, w)"
  by (simp add: race_free_def returned_jobs_def returned_def)

lemma returned_all:
  "finished cs \<Longrightarrow> Result None \<notin> set cs \<Longrightarrow> length (returned_jobs cs) = length cs"
proof (induction cs)
  case Nil
  then show ?case by (simp add: returned_jobs_def)
next
  case (Cons c cs)
  from Cons.prems have hc: "has_result c" and nn: "c \<noteq> Result None"
    by (auto simp: finished_def)
  have "\<exists>j. c = Result (Some j)"
  proof (cases c)
    case (Result r)
    with nn show ?thesis by (cases r) simp_all
  qed (use hc in \<open>simp_all add: has_result_def\<close>)
  then obtain j where "c = Result (Some j)" by blast
  with Cons show ?case
    by (simp add: returned_jobs_def returned_def finished_def)
qed

lemma race_free_complete:
  assumes inv: "race_free w0 (cs, w)" and fin: "finished cs"
    and enough: "length (pending_ids w0) \<le> length cs"
  shows "mset (returned_jobs cs) = mset (pending_ids w0)"
proof -
  from inv have d: "distinct (returned_jobs cs)"
    and p: "pending_ids w = filter (\<lambda>i. i \<notin> set (returned_jobs cs)) (pending_ids w0)"
    and s: "set (returned_jobs cs) \<subseteq> set (pending_ids w0)"
    and n: "Result None \<in> set cs \<longrightarrow> pending_ids w = []"
    unfolding race_free_def prod.case by blast+
  have "set (returned_jobs cs) = set (pending_ids w0)"
  proof (cases "Result None \<in> set cs")
    case True
    with n p have "filter (\<lambda>i. i \<notin> set (returned_jobs cs)) (pending_ids w0) = []" by simp
    then have "set (pending_ids w0) \<subseteq> set (returned_jobs cs)"
      by (auto simp: filter_empty_conv)
    with s show ?thesis by blast
  next
    case False
    from returned_all [OF fin False] enough d
    have "card (set (pending_ids w0)) \<le> card (set (returned_jobs cs))"
      by (simp add: distinct_card)
    with s show ?thesis
      by (intro card_seteq) simp_all
  qed
  with d show ?thesis
    by (simp add: set_eq_iff_mset_eq_distinct [symmetric])
qed

lemma sum_weights_update:
  "x < length cs \<Longrightarrow>
     sum_list (map f (cs[x := c])) + f (cs ! x) = sum_list (map f cs) + f c"
  for f :: "caller \<Rightarrow> nat"
proof (induction cs arbitrary: x)
  case Nil
  then show ?case by simp
next
  case (Cons a cs)
  then show ?case by (cases x) auto
qed

lemma weight_after_reserve: "weight (reserve c w) s \<le> weight w s + 2"
  by (cases s) (simp_all add: weight_def)

lemma sum_weights_after_reserve:
  "sum_list (map (weight (reserve c w)) cs) \<le> sum_list (map (weight w) cs) + 2 * length cs"
proof (induction cs)
  case Nil
  then show ?case by simp
next
  case (Cons a cs)
  with weight_after_reserve [of c w a] show ?case by simp
qed

lemma effort_decreases:
  assumes x: "x < length cs" and a: "\<not> has_result (cs ! x)"
  shows "effort (caller_step x (cs, w)) < effort (cs, w)"
proof (cases "cs ! x")
  case Calling
  show ?thesis
  proof (cases "select_next_job w")
    case None
    with sum_weights_update [OF x, of "weight w" "Result None"] Calling x show ?thesis
      by (simp add: caller_step_def effort_def weight_def)
  next
    case (Some c)
    with sum_weights_update [OF x, of "weight w" "Candidate c"] Calling x
      position_head(2) [OF Some]
    show ?thesis
      by (simp add: caller_step_def effort_def weight_def)
  qed
next
  case (Candidate c)
  show ?thesis
  proof (cases "c < length (jobs w) \<and> status (jobs w ! c) = Pending")
    case False
    then have "c \<notin> set (pending_ids w)" by (simp add: pending_ids_iff)
    with sum_weights_update [OF x, of "weight w" Calling] Candidate x False show ?thesis
      by (auto simp: caller_step_def effort_def weight_def)
  next
    case True
    then have cp: "c \<in> set (pending_ids w)" by (simp add: pending_ids_iff)
    let ?w' = "reserve c w"
    have step: "caller_step x (cs, w) = (cs[x := Result (Some c)], ?w')"
      using x Candidate True by (simp add: caller_step_def)
    from length_filter_remove [OF distinct_pending(1) cp, of "\<lambda>k. True"]
    have len: "length (pending_ids w) = Suc (length (pending_ids ?w'))"
      by (simp add: reserve_pending_ids [OF cp])
    have "c \<notin> set (pending_ids ?w')"
      by (simp add: reserve_pending_ids [OF cp])
    then have w3: "weight ?w' (cs ! x) = 3"
      by (simp add: Candidate weight_def)
    from sum_weights_update [OF x, of "weight ?w'" "Result (Some c)"] w3
    have "sum_list (map (weight ?w') (cs[x := Result (Some c)])) + 3 =
          sum_list (map (weight ?w') cs)"
      by (simp add: weight_def)
    with sum_weights_after_reserve [of c w cs]
    have "sum_list (map (weight ?w') (cs[x := Result (Some c)])) + 3 \<le>
          sum_list (map (weight w) cs) + 2 * length cs"
      by simp
    then show ?thesis
      unfolding step by (simp add: effort_def len)
  qed
next
  case (Result r)
  with a show ?thesis by (simp add: has_result_def)
qed

lemma productive_bounded: "productive schedule cfg \<Longrightarrow> length schedule \<le> effort cfg"
proof (induction schedule arbitrary: cfg)
  case Nil
  then show ?case by simp
next
  case (Cons x xs)
  obtain cs w where cfg: "cfg = (cs, w)" by (cases cfg)
  from Cons.prems cfg have x: "x < length cs" and a: "\<not> has_result (cs ! x)"
    and p: "productive xs (caller_step x (cs, w))"
    by simp_all
  from Cons.IH [OF p] effort_decreases [OF x a, of w] cfg show ?case
    by simp
qed

lemma effort_start:
  "effort (replicate n Calling, w) = 2 * n * (length (pending_ids w) + 1)"
  by (simp add: effort_def weight_def sum_list_replicate)

lemma productive_append:
  "productive (schedule @ [x]) cfg \<longleftrightarrow>
     productive schedule cfg \<and> x < length (fst (run_callers schedule cfg)) \<and>
     \<not> has_result (fst (run_callers schedule cfg) ! x)"
  unfolding run_callers_def
  by (induction schedule arbitrary: cfg) auto

lemma unfinished_caller:
  "\<not> finished cs \<Longrightarrow> \<exists>x < length cs. \<not> has_result (cs ! x)"
  by (auto simp: finished_def list_all_length)

text \<open>
  Claim C2. Let any number of callers run \<open>get_next_job\<close> with reservation concurrently,
  their reads and claims interleaved in any order, so that any delay may lie between a
  caller's read and its claim. At every moment, no job has been returned to two callers,
  every returned job was pending at the start and is now in progress with its start time
  set, and every job that was pending and has not been returned is still pending; a caller
  returns nothing only when no job is pending. When all callers have returned and there
  were at least as many callers as pending jobs, the multiset of returned jobs is the
  multiset of the jobs pending at the start. Every caller returns: a schedule that only
  moves callers that have not returned has at most \<open>2 * n * (p + 1)\<close> steps for \<open>n\<close>
  callers and \<open>p\<close> pending jobs, and as long as some caller has not returned the
  schedule can go on.
\<close>

theorem reservation_is_race_free:
  "distinct (returned_jobs (fst (run_callers schedule (replicate n Calling, w)))) \<and>
   set (returned_jobs (fst (run_callers schedule (replicate n Calling, w)))) \<subseteq>
     set (pending_ids w) \<and>
   pending_ids (snd (run_callers schedule (replicate n Calling, w))) =
     filter (\<lambda>i. i \<notin> set (returned_jobs (fst (run_callers schedule (replicate n Calling, w)))))
       (pending_ids w) \<and>
   (\<forall>j \<in> set (returned_jobs (fst (run_callers schedule (replicate n Calling, w)))).
      status (jobs (snd (run_callers schedule (replicate n Calling, w))) ! j) = InProgress \<and>
      capture_start_time (jobs (snd (run_callers schedule (replicate n Calling, w))) ! j) \<noteq> None) \<and>
   (Result None \<in> set (fst (run_callers schedule (replicate n Calling, w))) \<longrightarrow>
      pending_ids (snd (run_callers schedule (replicate n Calling, w))) = []) \<and>
   (finished (fst (run_callers schedule (replicate n Calling, w))) \<and>
    length (pending_ids w) \<le> n \<longrightarrow>
      mset (returned_jobs (fst (run_callers schedule (replicate n Calling, w)))) =
        mset (pending_ids w)) \<and>
   (productive schedule (replicate n Calling, w) \<longrightarrow>
      length schedule \<le> 2 * n * (length (pending_ids w) + 1)) \<and>
   (\<not> finished (fst (run_callers schedule (replicate n Calling, w))) \<and>
    productive schedule (replicate n Calling, w) \<longrightarrow>
      (\<exists>x. productive (schedule @ [x]) (replicate n Calling, w)))"
proof -
  let ?cfg = "run_callers schedule (replicate n Calling, w)"
  obtain cs w' where cfg: "?cfg = (cs, w')" by (cases ?cfg)
  have "race_free w (replicate n Calling, w)"
    by (rule race_free_start)
  then have "race_free w ?cfg"
    by (rule race_free_run)
  then have inv: "race_free w (cs, w')"
    by (simp add: cfg)
  have len: "length cs = n"
  proof -
    have "length (fst (caller_step x c)) = length (fst c)" for x c
      by (cases c) (auto simp: caller_step_def split: caller.splits option.splits)
    then have "length (fst (fold caller_step xs c)) = length (fst c)" for xs c
      by (induction xs arbitrary: c) simp_all
    from this [of schedule "(replicate n Calling, w)"] cfg show ?thesis
      by (simp add: run_callers_def)
  qed
  from inv have A: "distinct (returned_jobs cs)"
    "set (returned_jobs cs) \<subseteq> set (pending_ids w)"
    "pending_ids w' = filter (\<lambda>i. i \<notin> set (returned_jobs cs)) (pending_ids w)"
    "\<forall>j \<in> set (returned_jobs cs).
       status (jobs w' ! j) = InProgress \<and> capture_start_time (jobs w' ! j) \<noteq> None"
    "Result None \<in> set cs \<longrightarrow> pending_ids w' = []"
    unfolding race_free_def prod.case by blast+
  have B: "finished cs \<and> length (pending_ids w) \<le> n \<longrightarrow>
      mset (returned_jobs cs) = mset (pending_ids w)"
    using race_free_complete [OF inv] len by simp
  have C: "productive schedule (replicate n Calling, w) \<longrightarrow>
      length schedule \<le> 2 * n * (length (pending_ids w) + 1)"
    using productive_bounded [of schedule "(replicate n Calling, w)"]
    by (simp add: effort_start)
  have D: "\<not> finished cs \<and> productive schedule (replicate n Calling, w) \<longrightarrow>
      (\<exists>x. productive (schedule @ [x]) (replicate n Calling, w))"
    using unfinished_caller [of cs] by (auto simp: productive_append cfg)
  from A B C D show ?thesis
    unfolding cfg fst_conv snd_conv by blast
qed

theorem reservation_is_race_free_witness:
  "productive [0, 1, 0, 1, 1, 1] (replicate 2 Calling, two_job_world) \<and>
   finished (fst (run_callers [0, 1, 0, 1, 1, 1] (replicate 2 Calling, two_job_world))) \<and>
   length (pending_ids two_job_world) \<le> 2 \<and>
   mset (returned_jobs (fst (run_callers [0, 1, 0, 1, 1, 1] (replicate 2 Calling, two_job_world)))) =
     mset (pending_ids two_job_world) \<and>
   returned_jobs (fst (run_callers [0, 1, 0, 1, 1, 1] (replicate 2 Calling, two_job_world))) = [0, 1] \<and>
   fst (run_callers [0, 1, 0] (replicate 2 Calling, two_job_world)) =
     [Result (Some 0), Candidate 0]"
proof -
  have p: "productive [0, 1, 0, 1, 1, 1] (replicate 2 Calling, two_job_world)" by code_simp
  have f: "finished (fst (run_callers [0, 1, 0, 1, 1, 1] (replicate 2 Calling, two_job_world)))"
    by code_simp
  have l: "length (pending_ids two_job_world) \<le> 2" by code_simp
  from reservation_is_race_free [of "[0, 1, 0, 1, 1, 1]" 2 two_job_world] f l
  have m: "mset (returned_jobs (fst (run_callers [0, 1, 0, 1, 1, 1] (replicate 2 Calling, two_job_world)))) =
     mset (pending_ids two_job_world)" by blast
  have r: "returned_jobs (fst (run_callers [0, 1, 0, 1, 1, 1] (replicate 2 Calling, two_job_world))) = [0, 1]"
    by code_simp
  have c: "fst (run_callers [0, 1, 0] (replicate 2 Calling, two_job_world)) =
     [Result (Some 0), Candidate 0]" by code_simp
  from p f l m r c show ?thesis by (simp only: simp_thms)
qed

section \<open>Webhook dispatcher: disabling, retry, backoff and escalation\<close>

text \<open>
  Claim C9. While \<open>DISPATCH_WEBHOOKS\<close> is false, an invocation of \<open>dispatch_webhook\<close>
  returns normally and leaves the world as it was except for one log record saying that
  notifications are disabled: no HTTP request is made, no retry is scheduled, no email is
  sent, and the job and archive tables are unchanged.
\<close>

theorem dispatch_disabled_is_noop:
  assumes "\<not> DISPATCH_WEBHOOKS env"
  shows "dispatch_webhook env retries subscription_id capture_job_id response w =
           (Returned, w\<lparr>log_records := log_records w @
                          [Log_WebhooksDisabled subscription_id capture_job_id]\<rparr>) \<and>
         http_requests (snd (dispatch_webhook env retries subscription_id capture_job_id response w)) =
           http_requests w \<and>
         enqueued (snd (dispatch_webhook env retries subscription_id capture_job_id response w)) =
           enqueued w \<and>
         outbox (snd (dispatch_webhook env retries subscription_id capture_job_id response w)) =
           outbox w \<and>
         jobs (snd (dispatch_webhook env retries subscription_id capture_job_id response w)) =
           jobs w \<and>
         archives (snd (dispatch_webhook env retries subscription_id capture_job_id response w)) =
           archives w"
  using assms by (simp add: dispatch_webhook_def emit_def)

theorem dispatch_disabled_is_noop_witness:
  "\<not> DISPATCH_WEBHOOKS (hook_env\<lparr>DISPATCH_WEBHOOKS := False\<rparr>) \<and>
   dispatch_webhook (hook_env\<lparr>DISPATCH_WEBHOOKS := False\<rparr>) 0 7 0 (Response 200) empty_world =
     (Returned, empty_world\<lparr>log_records := [Log_WebhooksDisabled 7 0]\<rparr>)"
  using dispatch_disabled_is_noop [of "hook_env\<lparr>DISPATCH_WEBHOOKS := False\<rparr>" 0 7 0 "Response 200" empty_world]
  by (simp add: empty_world_def)

lemma dispatch_accepted:
  assumes "DISPATCH_WEBHOOKS env" and "subscriptions env sid = Some sub" and "accepted r"
  shows "dispatch_webhook env n sid jid r w =
     (Returned, emit (Log_Delivered sid jid)
        (post env sub (sid, if jid < length (jobs w) then Some jid else None) w))"
  using assms by (simp add: dispatch_webhook_def Let_def)

lemma dispatch_retry:
  assumes "DISPATCH_WEBHOOKS env" and "subscriptions env sid = Some sub" and "\<not> accepted r"
    and "n < WEBHOOK_MAX_RETRIES env"
  shows "dispatch_webhook env n sid jid r w =
     (Raised (Retry (2 ^ n)),
      apply_async (DispatchWebhook sid jid (Suc n) (2 ^ n))
        (emit (Log_DeliveryFailed sid jid n (WEBHOOK_MAX_RETRIES env))
           (post env sub (sid, if jid < length (jobs w) then Some jid else None) w)))"
  using assms by (simp add: dispatch_webhook_def retry_def Let_def)

lemma dispatch_exhausted:
  assumes "DISPATCH_WEBHOOKS env" and "subscriptions env sid = Some sub" and "\<not> accepted r"
    and "\<not> n < WEBHOOK_MAX_RETRIES env"
  shows "dispatch_webhook env n sid jid r w =
     (Returned,
      send_template_email sub sid (if jid < length (jobs w) then Some jid else None)
        (emit (Log_PermanentlyFailed sid jid)
          (emit (Log_DeliveryFailed sid jid n (WEBHOOK_MAX_RETRIES env))
             (post env sub (sid, if jid < length (jobs w) then Some jid else None) w))))"
  using assms by (simp add: dispatch_webhook_def retry_def Let_def)

lemma deliver_all_fail:
  assumes "DISPATCH_WEBHOOKS env" and "subscriptions env sid = Some sub"
  shows "\<forall>r \<in> set rs. \<not> accepted r \<Longrightarrow> n \<le> WEBHOOK_MAX_RETRIES env \<Longrightarrow>
         WEBHOOK_MAX_RETRIES env - n < length rs \<Longrightarrow>
         \<exists>w'. deliver env n sid jid rs w = Some (Returned, w') \<and>
              outbox w' = outbox w @
                [\<lparr>recipient = owner_email sub, about_subscription = sid,
                  about_capture_job = (if jid < length (jobs w) then Some jid else None)\<rparr>] \<and>
              enqueued w' = enqueued w @
                map (\<lambda>k. DispatchWebhook sid jid (Suc k) (2 ^ k)) [n..<WEBHOOK_MAX_RETRIES env] \<and>
              length (http_requests w') =
                length (http_requests w) + (WEBHOOK_MAX_RETRIES env - n) + 1"
proof (induction rs arbitrary: n w)
  case Nil
  then show ?case by simp
next
  case (Cons r rs)
  have nr: "\<not> accepted r" using Cons.prems(1) by simp
  show ?case
  proof (cases "n < WEBHOOK_MAX_RETRIES env")
    case False
    with Cons.prems have "n = WEBHOOK_MAX_RETRIES env" by simp
    then show ?thesis
      using dispatch_exhausted [OF assms nr False, of jid w]
      by (simp add: send_template_email_def emit_def post_def)
  next
    case True
    let ?w1 = "apply_async (DispatchWebhook sid jid (Suc n) (2 ^ n))
        (emit (Log_DeliveryFailed sid jid n (WEBHOOK_MAX_RETRIES env))
           (post env sub (sid, if jid < length (jobs w) then Some jid else None) w))"
    have step: "deliver env n sid jid (r # rs) w = deliver env (Suc n) sid jid rs ?w1"
      using dispatch_retry [OF assms nr True, of jid w] by simp
    have "\<exists>w'. deliver env (Suc n) sid jid rs ?w1 = Some (Returned, w') \<and>
              outbox w' = outbox ?w1 @
                [\<lparr>recipient = owner_email sub, about_subscription = sid,
                  about_capture_job = (if jid < length (jobs ?w1) then Some jid else None)\<rparr>] \<and>
              enqueued w' = enqueued ?w1 @
                map (\<lambda>k. DispatchWebhook sid jid (Suc k) (2 ^ k)) [Suc n..<WEBHOOK_MAX_RETRIES env] \<and>
              length (http_requests w') =
                length (http_requests ?w1) + (WEBHOOK_MAX_RETRIES env - Suc n) + 1"
      using Cons.prems True by (intro Cons.IH) auto
    then obtain w' where w': "deliver env (Suc n) sid jid rs ?w1 = Some (Returned, w')"
      "outbox w' = outbox ?w1 @
                [\<lparr>recipient = owner_email sub, about_subscription = sid,
                  about_capture_job = (if jid < length (jobs ?w1) then Some jid else None)\<rparr>]"
      "enqueued w' = enqueued ?w1 @
                map (\<lambda>k. DispatchWebhook sid jid (Suc k) (2 ^ k)) [Suc n..<WEBHOOK_MAX_RETRIES env]"
      "length (http_requests w') =
                length (http_requests ?w1) + (WEBHOOK_MAX_RETRIES env - Suc n) + 1"
      by blast
    have up: "[n..<WEBHOOK_MAX_RETRIES env] = n # [Suc n..<WEBHOOK_MAX_RETRIES env]"
      using True by (simp add: upt_conv_Cons)
    show ?thesis
      using w' True unfolding step up
      by (simp add: apply_async_def emit_def post_def)
  qed
qed

text \<open>
  Claim C7. With delivery enabled and the subscription on record, one invocation of
  \<open>dispatch_webhook\<close> posts exactly one request, with redirects not followed. A response
  status of 200 or 204 is success: the task returns, schedules no retry and sends no
  email. Any other status, and any transport failure, schedules one retry with countdown
  \<open>2 ^ retries\<close> and raises \<open>Retry\<close> as long as fewer than \<open>WEBHOOK_MAX_RETRIES\<close> retries
  were made. Once that bound is reached the task sends one email to the owner of the
  subscription, naming the capture job, schedules nothing and returns normally. Run to
  the end against a callback that never accepts, the task makes \<open>WEBHOOK_MAX_RETRIES + 1\<close>
  requests, schedules the retries with countdowns \<open>2 ^ 0, 2 ^ 1, \<dots>\<close>, and sends
  exactly one email.
\<close>

theorem webhook_retry_backoff_escalation:
  assumes "DISPATCH_WEBHOOKS env" and "subscriptions env sid = Some sub"
  shows
   "(r = Response 200 \<or> r = Response 204 \<longrightarrow>
       fst (dispatch_webhook env n sid jid r w) = Returned \<and>
       enqueued (snd (dispatch_webhook env n sid jid r w)) = enqueued w \<and>
       outbox (snd (dispatch_webhook env n sid jid r w)) = outbox w) \<and>
    (r \<noteq> Response 200 \<and> r \<noteq> Response 204 \<and> n < WEBHOOK_MAX_RETRIES env \<longrightarrow>
       fst (dispatch_webhook env n sid jid r w) = Raised (Retry (2 ^ n)) \<and>
       enqueued (snd (dispatch_webhook env n sid jid r w)) =
         enqueued w @ [DispatchWebhook sid jid (Suc n) (2 ^ n)] \<and>
       outbox (snd (dispatch_webhook env n sid jid r w)) = outbox w) \<and>
    (r \<noteq> Response 200 \<and> r \<noteq> Response 204 \<and> \<not> n < WEBHOOK_MAX_RETRIES env \<longrightarrow>
       fst (dispatch_webhook env n sid jid r w) = Returned \<and>
       enqueued (snd (dispatch_webhook env n sid jid r w)) = enqueued w \<and>
       outbox (snd (dispatch_webhook env n sid jid r w)) = outbox w @
         [\<lparr>recipient = owner_email sub, about_subscription = sid,
           about_capture_job = (if jid < length (jobs w) then Some jid else None)\<rparr>]) \<and>
    (\<exists>request. http_requests (snd (dispatch_webhook env n sid jid r w)) =
         http_requests w @ [request] \<and> \<not> allow_redirects request) \<and>
    ((\<forall>r' \<in> set rs. r' \<noteq> Response 200 \<and> r' \<noteq> Response 204) \<and>
      WEBHOOK_MAX_RETRIES env < length rs \<longrightarrow>
       (\<exists>w'. deliver env 0 sid jid rs w = Some (Returned, w') \<and>
          outbox w' = outbox w @
            [\<lparr>recipient = owner_email sub, about_subscription = sid,
              about_capture_job = (if jid < length (jobs w) then Some jid else None)\<rparr>] \<and>
          enqueued w' = enqueued w @
            map (\<lambda>k. DispatchWebhook sid jid (Suc k) (2 ^ k)) [0..<WEBHOOK_MAX_RETRIES env] \<and>
          length (http_requests w') = length (http_requests w) + WEBHOOK_MAX_RETRIES env + 1))"
proof (intro conjI impI)
  assume "r = Response 200 \<or> r = Response 204"
  then have a: "accepted r" by (simp add: accepted_def)
  show "fst (dispatch_webhook env n sid jid r w) = Returned"
    by (simp add: dispatch_accepted [OF assms a])
  show "enqueued (snd (dispatch_webhook env n sid jid r w)) = enqueued w"
    by (simp add: dispatch_accepted [OF assms a] emit_def post_def)
  show "outbox (snd (dispatch_webhook env n sid jid r w)) = outbox w"
    by (simp add: dispatch_accepted [OF assms a] emit_def post_def)
next
  assume h: "r \<noteq> Response 200 \<and> r \<noteq> Response 204 \<and> n < WEBHOOK_MAX_RETRIES env"
  then have a: "\<not> accepted r" and b: "n < WEBHOOK_MAX_RETRIES env"
    by (simp_all add: accepted_def)
  show "fst (dispatch_webhook env n sid jid r w) = Raised (Retry (2 ^ n))"
    by (simp add: dispatch_retry [OF assms a b])
  show "enqueued (snd (dispatch_webhook env n sid jid r w)) =
         enqueued w @ [DispatchWebhook sid jid (Suc n) (2 ^ n)]"
    by (simp add: dispatch_retry [OF assms a b] apply_async_def emit_def post_def)
  show "outbox (snd (dispatch_webhook env n sid jid r w)) = outbox w"
    by (simp add: dispatch_retry [OF assms a b] apply_async_def emit_def post_def)
next
  assume h: "r \<noteq> Response 200 \<and> r \<noteq> Response 204 \<and> \<not> n < WEBHOOK_MAX_RETRIES env"
  then have a: "\<not> accepted r" and b: "\<not> n < WEBHOOK_MAX_RETRIES env"
    by (simp_all add: accepted_def)
  show "fst (dispatch_webhook env n sid jid r w) = Returned"
    by (simp add: dispatch_exhausted [OF assms a b])
  show "enqueued (snd (dispatch_webhook env n sid jid r w)) = enqueued w"
    by (simp add: dispatch_exhausted [OF assms a b] send_template_email_def emit_def post_def)
  show "outbox (snd (dispatch_webhook env n sid jid r w)) = outbox w @
         [\<lparr>recipient = owner_email sub, about_subscription = sid,
           about_capture_job = (if jid < length (jobs w) then Some jid else None)\<rparr>]"
    by (simp add: dispatch_exhausted [OF assms a b] send_template_email_def emit_def post_def)
next
  show "\<exists>request. http_requests (snd (dispatch_webhook env n sid jid r w)) =
         http_requests w @ [request] \<and> \<not> allow_redirects request"
  proof (cases "accepted r")
    case True
    then show ?thesis
      by (simp add: dispatch_accepted [OF assms True] emit_def post_def)
  next
    case False
    then show ?thesis
      by (cases "n < WEBHOOK_MAX_RETRIES env")
        (simp_all add: dispatch_retry [OF assms False] dispatch_exhausted [OF assms False]
          send_template_email_def apply_async_def emit_def post_def)
  qed
next
  assume h: "(\<forall>r' \<in> set rs. r' \<noteq> Response 200 \<and> r' \<noteq> Response 204) \<and>
      WEBHOOK_MAX_RETRIES env < length rs"
  then have "\<forall>r' \<in> set rs. \<not> accepted r'"
    by (simp add: accepted_def)
  from deliver_all_fail [OF assms this, of 0 jid w] h
  show "\<exists>w'. deliver env 0 sid jid rs w = Some (Returned, w') \<and>
          outbox w' = outbox w @
            [\<lparr>recipient = owner_email sub, about_subscription = sid,
              about_capture_job = (if jid < length (jobs w) then Some jid else None)\<rparr>] \<and>
          enqueued w' = enqueued w @
            map (\<lambda>k. DispatchWebhook sid jid (Suc k) (2 ^ k)) [0..<WEBHOOK_MAX_RETRIES env] \<and>
          length (http_requests w') = length (http_requests w) + WEBHOOK_MAX_RETRIES env + 1"
    by simp
qed

theorem webhook_retry_backoff_escalation_witness:
  "DISPATCH_WEBHOOKS hook_env \<and> subscriptions hook_env 7 = Some hook_subscription \<and>
   fst (dispatch_webhook hook_env 2 7 0 (Response 301) empty_world) = Raised (Retry 4) \<and>
   enqueued (snd (dispatch_webhook hook_env 2 7 0 (Response 301) empty_world)) =
     [DispatchWebhook 7 0 3 4] \<and>
   outbox (snd (dispatch_webhook hook_env 2 7 0 (Response 301) empty_world)) = []"
proof -
  have a: "DISPATCH_WEBHOOKS hook_env"
    by (simp add: hook_env_def)
  have b: "subscriptions hook_env 7 = Some hook_subscription"
    by (simp add: hook_env_def)
  have c: "Response 301 \<noteq> Response 200 \<and> Response 301 \<noteq> Response 204 \<and>
      2 < WEBHOOK_MAX_RETRIES hook_env"
    by (simp add: hook_env_def)
  from webhook_retry_backoff_escalation [OF a b, of "Response 301" 2 0 empty_world "[]",
      THEN conjunct2, THEN conjunct1, rule_format, OF c] a b
  show ?thesis
    by (simp add: empty_world_def)
qed

section \<open>Capture orchestrator: what one run does to the job\<close>

lemma row_field:
  assumes "\<And>j. g (f j) = g j"
  shows "g ((xs[i := f (xs ! i)]) ! k) = g (xs ! k)"
  by (cases "i < length xs"; cases "k = i") (simp_all add: assms list_update_beyond)

lemma emit_frame [simp]:
  "jobs (emit r w) = jobs w" "archives (emit r w) = archives w"
  "enqueued (emit r w) = enqueued w" "now (emit r w) = now w"
  "docker_calls (emit r w) = docker_calls w"
  by (simp_all add: emit_def)

lemma docker_frame [simp]:
  "jobs (docker c w) = jobs w" "archives (docker c w) = archives w"
  "enqueued (docker c w) = enqueued w" "now (docker c w) = now w"
  "docker_calls (docker c w) = docker_calls w @ [c]"
  by (simp_all add: docker_def)

lemma update_job_frame [simp]:
  "jobs (update_job i f w) = (jobs w)[i := f (jobs w ! i)]"
  "archives (update_job i f w) = archives w"
  "enqueued (update_job i f w) = enqueued w" "now (update_job i f w) = now w"
  "docker_calls (update_job i f w) = docker_calls w"
  by (simp_all add: update_job_def)

lemma inc_progress_frame [simp]:
  "jobs (inc_progress i n d w) = (jobs w)[i := job_inc_progress n d (jobs w ! i)]"
  "archives (inc_progress i n d w) = archives w"
  "enqueued (inc_progress i n d w) = enqueued w" "now (inc_progress i n d w) = now w"
  "docker_calls (inc_progress i n d w) = docker_calls w"
  by (simp_all add: inc_progress_def Let_def)

lemma job_inc_progress_fields [simp]:
  "status (job_inc_progress n d j) = status j"
  "requested_url (job_inc_progress n d j) = requested_url j"
  "validated_url (job_inc_progress n d j) = validated_url j"
  "message (job_inc_progress n d j) = message j"
  "step_count (job_inc_progress n d j) = step_count j + n"
  "step_description (job_inc_progress n d j) = d"
  "capture_end_time (job_inc_progress n d j) = capture_end_time j"
  by (simp_all add: job_inc_progress_def)

lemma stream_frame:
  "archives (fold (\<lambda>msg. inc_progress i 1 (f msg)) xs w) = archives w \<and>
   enqueued (fold (\<lambda>msg. inc_progress i 1 (f msg)) xs w) = enqueued w \<and>
   now (fold (\<lambda>msg. inc_progress i 1 (f msg)) xs w) = now w \<and>
   docker_calls (fold (\<lambda>msg. inc_progress i 1 (f msg)) xs w) = docker_calls w \<and>
   length (jobs (fold (\<lambda>msg. inc_progress i 1 (f msg)) xs w)) = length (jobs w) \<and>
   status (jobs (fold (\<lambda>msg. inc_progress i 1 (f msg)) xs w) ! k) = status (jobs w ! k) \<and>
   validated_url (jobs (fold (\<lambda>msg. inc_progress i 1 (f msg)) xs w) ! k) =
     validated_url (jobs w ! k)"
proof (induction xs arbitrary: w)
  case Nil
  show ?case by simp
next
  case (Cons x xs)
  show ?case
    using Cons.IH [of "inc_progress i 1 (f x) w"]
    by (simp add: row_field)
qed

lemma evaluate_outcome_result:
  "evaluate_outcome env i l w = (e, l', w') \<Longrightarrow>
     l' = l\<lparr>have_archive := (exit_status env = Some 0 \<or> artifact_exists env \<or> have_archive l)\<rparr> \<and>
     jobs w' = jobs w \<and> archives w' = archives w \<and> enqueued w' = enqueued w \<and> now w' = now w \<and>
     (e = None \<longleftrightarrow> exit_status env = Some 0)"
  by (auto simp: evaluate_outcome_def exit_status_def Let_def split: if_splits)

lemma run_browsertrix_result:
  assumes "run_browsertrix env i l w = (e, l', w')" and "\<not> have_archive l"
  shows "l' = l\<lparr>have_archive := (start_ok env \<and> interrupted env = None \<and>
                 (exit_status env = Some 0 \<or> artifact_exists env))\<rparr> \<and>
     length (jobs w') = length (jobs w) \<and> status (jobs w' ! k) = status (jobs w ! k) \<and>
     validated_url (jobs w' ! k) = validated_url (jobs w ! k) \<and>
     archives w' = archives w \<and> enqueued w' = enqueued w \<and> now w' = now w"
proof (cases "start_ok env")
  case False
  with assms show ?thesis
    by (auto simp: run_browsertrix_def Let_def row_field)
next
  case True
  let ?w3 = "fold (\<lambda>msg. inc_progress i 1 (''Browsertrix: '' @ strip msg @ ''.''))
                      (lines_read env) (docker ContainerStart (inc_progress i 1 ''Starting browsertrix.'' w))"
  note sf = stream_frame [of i "\<lambda>msg. ''Browsertrix: '' @ strip msg @ ''.''" "lines_read env"
      "docker ContainerStart (inc_progress i 1 ''Starting browsertrix.'' w)" k]
  show ?thesis
  proof (cases "interrupted env")
    case (Some x)
    with assms True have "e = Some x" "l' = l" "w' = ?w3"
      by (simp_all add: run_browsertrix_def Let_def)
    with sf Some True assms(2) show ?thesis
      by (simp add: row_field)
  next
    case None
    with assms True have "evaluate_outcome env i l ?w3 = (e, l', w')"
      by (simp add: run_browsertrix_def Let_def)
    from evaluate_outcome_result [OF this] sf None True assms(2) show ?thesis
      by (simp add: row_field)
  qed
qed

lemma create_container_result:
  assumes "create_container env i l w = (e, l', w')" and "\<not> have_archive l"
  shows "l' = l\<lparr>container := (create_ok env \<or> container l),
               have_archive := (create_ok env \<and> start_ok env \<and> interrupted env = None \<and>
                 (exit_status env = Some 0 \<or> artifact_exists env))\<rparr> \<and>
     length (jobs w') = length (jobs w) \<and> status (jobs w' ! k) = status (jobs w ! k) \<and>
     validated_url (jobs w' ! k) = validated_url (jobs w ! k) \<and>
     archives w' = archives w \<and> enqueued w' = enqueued w \<and> now w' = now w"
proof (cases "create_ok env")
  case False
  with assms show ?thesis
    by (auto simp: create_container_def Let_def row_field)
next
  case True
  with assms have "run_browsertrix env i (l\<lparr>container := True\<rparr>)
      (docker ContainerCreate (inc_progress i 1 ''Creating browsertrix container.'' w)) = (e, l', w')"
    by (simp add: create_container_def Let_def)
  from run_browsertrix_result [OF this, of k] assms(2) True show ?thesis
    by (simp add: row_field)
qed

lemma connect_to_docker_result:
  assumes "connect_to_docker env i l w = (e, l', w')" and "\<not> have_archive l"
  shows "l' = l\<lparr>client := (from_env_ok env \<or> client l),
               container := (from_env_ok env \<and> create_ok env \<or> container l),
               have_archive := (from_env_ok env \<and> create_ok env \<and> start_ok env \<and>
                 interrupted env = None \<and> (exit_status env = Some 0 \<or> artifact_exists env))\<rparr> \<and>
     length (jobs w') = length (jobs w) \<and> status (jobs w' ! k) = status (jobs w ! k) \<and>
     validated_url (jobs w' ! k) = validated_url (jobs w ! k) \<and>
     archives w' = archives w \<and> enqueued w' = enqueued w \<and> now w' = now w"
proof (cases "from_env_ok env")
  case False
  with assms show ?thesis
    by (auto simp: connect_to_docker_def Let_def row_field)
next
  case True
  with assms have "create_container env i (l\<lparr>client := True\<rparr>)
      (docker DockerFromEnv (inc_progress i 1 ''Connecting to Docker.'' w)) = (e, l', w')"
    by (simp add: connect_to_docker_def Let_def)
  from create_container_result [OF this, of k] assms(2) True show ?thesis
    by (simp add: row_field)
qed

lemma mark_fields [simp]:
  "status (mark_failed m t j) = Failed" "status (mark_invalid ms t j) = Invalid"
  "status (mark_completed t j) = Completed"
  "message (mark_failed m t j) = [(NON_FIELD_ERRORS_KEY, [m])]"
  "message (mark_invalid ms t j) = ms" "message (mark_completed t j) = message j"
  "step_count (mark_failed m t j) = step_count j" "step_count (mark_invalid ms t j) = step_count j"
  "step_count (mark_completed t j) = step_count j"
  "step_description (mark_failed m t j) = step_description j"
  "step_description (mark_invalid ms t j) = step_description j"
  "step_description (mark_completed t j) = step_description j"
  "validated_url (mark_failed m t j) = validated_url j"
  "validated_url (mark_invalid ms t j) = validated_url j"
  "validated_url (mark_completed t j) = validated_url j"
  "capture_end_time (mark_failed m t j) = Some t" "capture_end_time (mark_invalid ms t j) = Some t"
  "capture_end_time (mark_completed t j) = Some t"
  by (simp_all add: mark_failed_def mark_invalid_def mark_completed_def)

lemma capture_body_valid:
  assumes "capture_body env i no_locals w = (e, l', w')"
    and "validate_and_clean env (requested_url (jobs w ! i)) = Inr cleaned"
  shows "l' = \<lparr>client = from_env_ok env, container = (from_env_ok env \<and> create_ok env),
               have_archive = (container_exited env \<and>
                 (exit_status env = Some 0 \<or> artifact_exists env))\<rparr> \<and>
     length (jobs w') = length (jobs w) \<and> status (jobs w' ! i) = status (jobs w ! i) \<and>
     (i < length (jobs w) \<longrightarrow> validated_url (jobs w' ! i) = Some cleaned) \<and>
     archives w' = archives w \<and> enqueued w' = enqueued w \<and> now w' = now w"
proof -
  define w1 where
    "w1 = update_job i (\<lambda>j. j\<lparr>validated_url := Some cleaned\<rparr>) (inc_progress i 0 ''Validating.'' w)"
  have r: "requested_url ((jobs w)[i := job_inc_progress 0 ''Validating.'' (jobs w ! i)] ! i) =
      requested_url (jobs w ! i)"
    by (simp add: row_field)
  have w1: "length (jobs w1) = length (jobs w)" "status (jobs w1 ! i) = status (jobs w ! i)"
    "i < length (jobs w) \<longrightarrow> validated_url (jobs w1 ! i) = Some cleaned"
    "archives w1 = archives w" "enqueued w1 = enqueued w" "now w1 = now w"
    unfolding w1_def by (cases "i < length (jobs w)"; simp add: list_update_beyond)+
  from assms have "connect_to_docker env i no_locals w1 = (e, l', w')"
    by (simp add: capture_body_def Let_def r w1_def)
  from connect_to_docker_result [OF this, of i] w1
  show ?thesis
    by (auto simp: no_locals_def container_exited_def)
qed

lemma capture_body_invalid:
  assumes "validate_and_clean env (requested_url (jobs w ! i)) = Inl messages"
  shows "capture_body env i no_locals w =
     (Some HaltCaptureException, no_locals,
      update_job i (mark_invalid [(''requested_url'', messages)] (now w))
        (inc_progress i 0 ''Validating.'' w))"
proof -
  have r: "requested_url ((jobs w)[i := job_inc_progress 0 ''Validating.'' (jobs w ! i)] ! i) =
      requested_url (jobs w ! i)"
    by (simp add: row_field)
  from assms show ?thesis
    by (simp add: capture_body_def Let_def r)
qed

lemma handle_exception_frame [simp]:
  "jobs (handle_exception e i w) = jobs w" "archives (handle_exception e i w) = archives w"
  "enqueued (handle_exception e i w) = enqueued w" "now (handle_exception e i w) = now w"
  "docker_calls (handle_exception e i w) = docker_calls w"
  by (simp_all add: handle_exception_def split: option.splits exc.splits)

lemma save_archive_result:
  assumes "i < length (jobs w)"
  shows "length (jobs (save_archive env i w)) = length (jobs w) \<and>
     enqueued (save_archive env i w) = enqueued w \<and> now (save_archive env i w) = now w \<and>
     validated_url (jobs (save_archive env i w) ! i) = validated_url (jobs w ! i) \<and>
     (if artifact_exists env \<and> storage_save_ok env \<and> url_expires env \<noteq> None
      then status (jobs (save_archive env i w) ! i) = Completed \<and>
           archives (save_archive env i w) = archives w @ [new_archive env i]
      else status (jobs (save_archive env i w) ! i) = status (jobs w ! i) \<and>
           archives (save_archive env i w) = archives w)"
  using assms
  by (auto simp: save_archive_def Let_def new_archive_def row_field split: option.splits)

lemma finalize_result:
  assumes "i < length (jobs w)"
  shows "length (jobs (finalize env i l w)) = length (jobs w) \<and>
     enqueued (finalize env i l w) = enqueued w \<and> now (finalize env i l w) = now w \<and>
     validated_url (jobs (finalize env i l w) ! i) = validated_url (jobs w ! i) \<and>
     (if (container l \<longrightarrow> remove_ok env) \<and> (client l \<longrightarrow> close_ok env) \<and> have_archive l \<and>
         artifact_exists env \<and> storage_save_ok env \<and> url_expires env \<noteq> None
      then status (jobs (finalize env i l w) ! i) = Completed \<and>
           archives (finalize env i l w) = archives w @ [new_archive env i]
      else status (jobs (finalize env i l w) ! i) = status (jobs w ! i) \<and>
           archives (finalize env i l w) = archives w)"
proof -
  have a: "i < length (jobs (docker c w))" for c using assms by simp
  have b: "i < length (jobs (docker c (docker c' w)))" for c c' using assms by simp
  note s = save_archive_result [OF assms, of env] save_archive_result [OF a, of env]
    save_archive_result [OF b, of env]
  show ?thesis
    unfolding finalize_def Let_def using s
    by (auto split: if_splits)
qed

lemma safety_net_result:
  assumes "i < length (jobs w)"
  shows "length (jobs (safety_net i w)) = length (jobs w) \<and>
     enqueued (safety_net i w) = enqueued w \<and> archives (safety_net i w) = archives w \<and>
     validated_url (jobs (safety_net i w) ! i) = validated_url (jobs w ! i) \<and>
     (if status (jobs w ! i) = InProgress
      then jobs (safety_net i w) ! i = mark_failed ''Failed during capture.'' (now w) (jobs w ! i)
      else jobs (safety_net i w) = jobs w)"
  using assms by (simp add: safety_net_def)

lemma capture_valid:
  assumes i: "i < length (jobs w)" and st: "status (jobs w ! i) = InProgress"
    and v: "validate_and_clean env (requested_url (jobs w ! i)) = Inr cleaned"
  shows "status (jobs (capture env i w) ! i) = (if completes env then Completed else Failed) \<and>
     archives (capture env i w) =
       (if completes env then archives w @ [new_archive env i] else archives w) \<and>
     validated_url (jobs (capture env i w) ! i) = Some cleaned \<and>
     (\<not> completes env \<longrightarrow>
        message (jobs (capture env i w) ! i) =
          [(NON_FIELD_ERRORS_KEY, [''Failed during capture.''])]) \<and>
     enqueued (capture env i w) = enqueued w \<and>
     length (jobs (capture env i w)) = length (jobs w)"
proof -
  obtain e l' w' where b: "capture_body env i no_locals w = (e, l', w')"
    by (cases "capture_body env i no_locals w") auto
  note B = capture_body_valid [OF b v]
  let ?w2 = "handle_exception e i w'"
  have i2: "i < length (jobs ?w2)" using B i by simp
  note F = finalize_result [OF i2, of env l']
  let ?w3 = "finalize env i l' ?w2"
  have i3: "i < length (jobs ?w3)" using F i2 by simp
  note S = safety_net_result [OF i3]
  have c: "capture env i w = safety_net i ?w3"
    by (simp add: capture_def b)
  have comp: "completes env \<longleftrightarrow>
     (container l' \<longrightarrow> remove_ok env) \<and> (client l' \<longrightarrow> close_ok env) \<and> have_archive l' \<and>
         artifact_exists env \<and> storage_save_ok env \<and> url_expires env \<noteq> None"
    using B by (auto simp: completes_def finalize_ok_def container_exited_def)
  show ?thesis
  proof (cases "completes env")
    case True
    with comp F B st i S show ?thesis
      unfolding c by simp
  next
    case False
    with comp F B st i have "status (jobs ?w3 ! i) = InProgress" "archives ?w3 = archives w"
      "validated_url (jobs ?w3 ! i) = Some cleaned" "enqueued ?w3 = enqueued w"
      "length (jobs ?w3) = length (jobs w)"
      by auto
    with S False show ?thesis
      unfolding c by simp
  qed
qed

lemma capture_invalid:
  assumes i: "i < length (jobs w)"
    and v: "validate_and_clean env (requested_url (jobs w ! i)) = Inl messages"
  shows "jobs (capture env i w) ! i =
       mark_invalid [(''requested_url'', messages)] (now w)
         (job_inc_progress 0 ''Validating.'' (jobs w ! i)) \<and>
     archives (capture env i w) = archives w \<and>
     docker_calls (capture env i w) = docker_calls w \<and>
     enqueued (capture env i w) = enqueued w \<and>
     length (jobs (capture env i w)) = length (jobs w)"
  using i unfolding capture_def capture_body_invalid [OF v]
  by (simp add: finalize_def no_locals_def safety_net_def)

subsection \<open>What reservation hands to the orchestrator\<close>

lemma user_queue_subset: "set (user_queue w u) \<subseteq> set (pending_ids w)"
  by (auto simp: user_queue_def human_pending_def)

lemma robot_pending_subset: "set (robot_pending w) \<subseteq> set (pending_ids w)"
  by (auto simp: robot_pending_def)

lemma select_next_job_pending:
  assumes "select_next_job w = Some i"
  shows "i \<in> set (pending_ids w)"
proof (cases "next_user w")
  case None
  with assms have "i \<in> set (robot_pending w)"
    by (simp add: select_next_job_def oldest_def least_by_mem)
  with robot_pending_subset show ?thesis by blast
next
  case (Some u)
  with assms have "i \<in> set (user_queue w u)"
    by (simp add: select_next_job_def oldest_def least_by_mem)
  with user_queue_subset show ?thesis by blast
qed

lemma reap_pending_ids: "pending_ids (clean_up_failed_captures limit w) = pending_ids w"
proof -
  have "status (jobs (clean_up_failed_captures limit w) ! i) = Pending \<longleftrightarrow>
        status (jobs w ! i) = Pending" if "i < length (jobs w)" for i
    using that by (simp add: reap_row timed_out_def mark_failed_def)
  then show ?thesis
    unfolding pending_ids_def reap_length
    by (intro filter_cong) auto
qed

lemma reap_frame [simp]:
  "enqueued (clean_up_failed_captures limit w) = enqueued w"
  "archives (clean_up_failed_captures limit w) = archives w"
  "docker_calls (clean_up_failed_captures limit w) = docker_calls w"
  "log_records (clean_up_failed_captures limit w) = log_records w"
  by (simp_all add: clean_up_failed_captures_def)

lemma reap_pending_row:
  assumes "i \<in> set (pending_ids w)"
  shows "jobs (clean_up_failed_captures limit w) ! i = jobs w ! i"
  using assms by (simp add: pending_ids_iff reap_row timed_out_def)

lemma reserve_frame:
  "jobs (reserve i w) =
     (jobs w)[i := (jobs w ! i)\<lparr>status := InProgress, capture_start_time := Some (now w)\<rparr>]"
  "enqueued (reserve i w) = enqueued w" "archives (reserve i w) = archives w"
  "docker_calls (reserve i w) = docker_calls w" "now (reserve i w) = now w + 1"
  "log_records (reserve i w) = log_records w"
  by (simp_all add: reserve_def update_job_def)

lemma get_next_job_reserved:
  assumes "fst (get_next_job True (clean_up_failed_captures limit w)) = Some i"
  shows "get_next_job True (clean_up_failed_captures limit w) =
           (Some i, reserve i (clean_up_failed_captures limit w))"
    and "i < length (jobs w)" and "status (jobs w ! i) = Pending"
    and "jobs (reserve i (clean_up_failed_captures limit w)) ! i =
           (jobs w ! i)\<lparr>status := InProgress, capture_start_time := Some (now w)\<rparr>"
proof -
  let ?r = "clean_up_failed_captures limit w"
  from assms have s: "select_next_job ?r = Some i"
    by (simp add: get_next_job_def split: option.splits)
  then show "get_next_job True ?r = (Some i, reserve i ?r)"
    by (simp add: get_next_job_def)
  from select_next_job_pending [OF s] have p: "i \<in> set (pending_ids w)"
    by (simp add: reap_pending_ids)
  then show "i < length (jobs w)" and "status (jobs w ! i) = Pending"
    by (simp_all add: pending_ids_iff)
  with p show "jobs (reserve i ?r) ! i =
           (jobs w ! i)\<lparr>status := InProgress, capture_start_time := Some (now w)\<rparr>"
    by (simp add: reserve_frame reap_length reap_pending_row reap_now)
qed

lemma get_next_job_none:
  "fst (get_next_job True (clean_up_failed_captures limit w)) = None \<longleftrightarrow> pending_ids w = []"
  using select_next_job_None [of "clean_up_failed_captures limit w"]
  by (auto simp: get_next_job_def reap_pending_ids split: option.splits)

lemma run_next_capture_reserved:
  assumes "fst (get_next_job True (clean_up_failed_captures limit w)) = Some i"
  shows "run_next_capture limit env w =
     apply_async RunNextCapture (capture env i (reserve i (clean_up_failed_captures limit w)))"
  by (simp add: run_next_capture_def get_next_job_reserved(1) [OF assms])

lemma apply_async_frame [simp]:
  "jobs (apply_async t w) = jobs w" "archives (apply_async t w) = archives w"
  "enqueued (apply_async t w) = enqueued w @ [t]" "docker_calls (apply_async t w) = docker_calls w"
  by (simp_all add: apply_async_def)

lemma reserved_facts:
  assumes "fst (get_next_job True (clean_up_failed_captures limit w)) = Some i"
  obtains w1 where
    "\<And>env. run_next_capture limit env w = apply_async RunNextCapture (capture env i w1)"
    and "i < length (jobs w1)" and "status (jobs w1 ! i) = InProgress"
    and "requested_url (jobs w1 ! i) = requested_url (jobs w ! i)"
    and "step_count (jobs w1 ! i) = step_count (jobs w ! i)"
    and "enqueued w1 = enqueued w" and "archives w1 = archives w"
    and "docker_calls w1 = docker_calls w"
proof
  let ?w1 = "reserve i (clean_up_failed_captures limit w)"
  note G = get_next_job_reserved [OF assms]
  show "run_next_capture limit env w = apply_async RunNextCapture (capture env i ?w1)" for env
    by (rule run_next_capture_reserved [OF assms])
  show "i < length (jobs ?w1)"
    using G(2) by (simp add: reserve_frame reap_length)
  show "status (jobs ?w1 ! i) = InProgress" "requested_url (jobs ?w1 ! i) = requested_url (jobs w ! i)"
    "step_count (jobs ?w1 ! i) = step_count (jobs w ! i)"
    using G(4) by simp_all
  show "enqueued ?w1 = enqueued w" "archives ?w1 = archives w" "docker_calls ?w1 = docker_calls w"
    by (simp_all add: reserve_frame)
qed

text \<open>
  Claim C3. Whenever \<open>run_next_capture\<close> reserves a job, the job's status when the task
  returns is terminal (Completed, Failed or Invalid) and never InProgress. It is Invalid
  exactly when validation rejects the URL, Completed exactly when the capture and every
  step of finalize succeed, and Failed in every other case, including an exception during
  finalize: there the safety net marks the job failed with the message
  \<open>Failed during capture.\<close>
\<close>

theorem run_next_capture_ends_terminal:
  assumes "fst (get_next_job True (clean_up_failed_captures limit w)) = Some i"
  shows "terminal (status (jobs (run_next_capture limit env w) ! i)) \<and>
     status (jobs (run_next_capture limit env w) ! i) \<noteq> InProgress \<and>
     status (jobs (run_next_capture limit env w) ! i) =
       (case validate_and_clean env (requested_url (jobs w ! i)) of
          Inl messages \<Rightarrow> Invalid
        | Inr cleaned \<Rightarrow> if completes env then Completed else Failed) \<and>
     (status (jobs (run_next_capture limit env w) ! i) = Failed \<longrightarrow>
        message (jobs (run_next_capture limit env w) ! i) =
          [(NON_FIELD_ERRORS_KEY, [''Failed during capture.''])])"
proof -
  from reserved_facts [OF assms] obtain w1 where
    run: "\<And>env. run_next_capture limit env w = apply_async RunNextCapture (capture env i w1)"
    and i1: "i < length (jobs w1)" and st: "status (jobs w1 ! i) = InProgress"
    and ru: "requested_url (jobs w1 ! i) = requested_url (jobs w ! i)"
    by blast
  show ?thesis
  proof (cases "validate_and_clean env (requested_url (jobs w ! i))")
    case (Inl messages)
    with ru have "validate_and_clean env (requested_url (jobs w1 ! i)) = Inl messages" by simp
    from capture_invalid [OF i1 this] Inl show ?thesis
      unfolding run by (simp add: terminal_def)
  next
    case (Inr cleaned)
    with ru have "validate_and_clean env (requested_url (jobs w1 ! i)) = Inr cleaned" by simp
    from capture_valid [OF i1 st this] Inr show ?thesis
      unfolding run by (simp add: terminal_def)
  qed
qed

theorem run_next_capture_ends_terminal_witness:
  "fst (get_next_job True (clean_up_failed_captures CELERY_TASK_TIME_LIMIT one_job_world)) = Some 0 \<and>
   terminal (status (jobs (run_next_capture CELERY_TASK_TIME_LIMIT cleanup_fails_env one_job_world) ! 0)) \<and>
   status (jobs (run_next_capture CELERY_TASK_TIME_LIMIT cleanup_fails_env one_job_world) ! 0) = Failed"
proof -
  have h: "fst (get_next_job True (clean_up_failed_captures CELERY_TASK_TIME_LIMIT one_job_world)) = Some 0"
    by code_simp
  have v: "validate_and_clean cleanup_fails_env (requested_url (jobs one_job_world ! 0)) =
      Inr ''http://example.com''"
    by code_simp
  have c: "\<not> completes cleanup_fails_env"
    by code_simp
  note T = run_next_capture_ends_terminal [OF h, of cleanup_fails_env]
  from T have t: "terminal (status (jobs (run_next_capture CELERY_TASK_TIME_LIMIT cleanup_fails_env one_job_world) ! 0))"
    by blast
  from T have "status (jobs (run_next_capture CELERY_TASK_TIME_LIMIT cleanup_fails_env one_job_world) ! 0) =
       (case validate_and_clean cleanup_fails_env (requested_url (jobs one_job_world ! 0)) of
          Inl messages \<Rightarrow> Invalid
        | Inr cleaned \<Rightarrow> if completes cleanup_fails_env then Completed else Failed)"
    by blast
  then have s: "status (jobs (run_next_capture CELERY_TASK_TIME_LIMIT cleanup_fails_env one_job_world) ! 0) = Failed"
    unfolding v using c by simp
  from h t s show ?thesis
    by blast
qed

text \<open>
  Claim C4, as amended. For a reserved job whose URL validates and whose container is
  created, started and exits with an exit code other than 0: if the output file exists,
  the main thread is not interrupted while it reads the container's output, and no step of
  finalize raises, the job ends Completed and one Archive record with the hash, the hash
  algorithm, the size and the download URL is created for it; if the output file exists
  and the main thread is interrupted or a step of finalize raises, the job ends Failed and
  no Archive record is created; if the output file does not exist, the job ends Failed and
  no Archive record is created.
\<close>

theorem nonzero_exit_salvage:
  assumes "fst (get_next_job True (clean_up_failed_captures limit w)) = Some i"
    and "validate_and_clean env (requested_url (jobs w ! i)) = Inr cleaned"
    and "container_started env" and "exit_status env \<noteq> Some 0"
  shows "(artifact_exists env \<and> interrupted env = None \<and> finalize_ok env \<longrightarrow>
            status (jobs (run_next_capture limit env w) ! i) = Completed \<and>
            archives (run_next_capture limit env w) = archives w @ [new_archive env i]) \<and>
         (artifact_exists env \<and> (interrupted env \<noteq> None \<or> \<not> finalize_ok env) \<longrightarrow>
            status (jobs (run_next_capture limit env w) ! i) = Failed \<and>
            archives (run_next_capture limit env w) = archives w) \<and>
         (\<not> artifact_exists env \<longrightarrow>
            status (jobs (run_next_capture limit env w) ! i) = Failed \<and>
            archives (run_next_capture limit env w) = archives w)"
proof -
  from reserved_facts [OF assms(1)] obtain w1 where
    run: "\<And>env. run_next_capture limit env w = apply_async RunNextCapture (capture env i w1)"
    and i1: "i < length (jobs w1)" and st: "status (jobs w1 ! i) = InProgress"
    and ru: "requested_url (jobs w1 ! i) = requested_url (jobs w ! i)"
    and ar: "archives w1 = archives w"
    by blast
  have v: "validate_and_clean env (requested_url (jobs w1 ! i)) = Inr cleaned"
    using assms(2) by (simp only: ru)
  have c: "completes env \<longleftrightarrow> artifact_exists env \<and> interrupted env = None \<and> finalize_ok env"
    using assms(3,4)
    by (auto simp: completes_def finalize_ok_def container_exited_def container_started_def)
  from capture_valid [OF i1 st v] c ar show ?thesis
    unfolding run by auto
qed

theorem nonzero_exit_salvage_witness:
  "fst (get_next_job True (clean_up_failed_captures CELERY_TASK_TIME_LIMIT one_job_world)) = Some 0 \<and>
   container_started killed_env \<and> exit_status killed_env = Some 137 \<and>
   artifact_exists killed_env \<and> interrupted killed_env = None \<and> finalize_ok killed_env \<and>
   status (jobs (run_next_capture CELERY_TASK_TIME_LIMIT killed_env one_job_world) ! 0) = Completed \<and>
   archives (run_next_capture CELERY_TASK_TIME_LIMIT killed_env one_job_world) =
     [\<lparr>archive_job = 0, hash = ''abc'', hash_algorithm = ''sha256'', warc_size = 1024,
       download_url = ''https://storage.example.com/file.wacz?Expires=100'',
       download_expiration_timestamp = 100\<rparr>] \<and>
   container_started interrupted_env \<and> exit_status interrupted_env = Some 137 \<and>
   artifact_exists interrupted_env \<and> interrupted interrupted_env = Some SoftTimeLimitExceeded \<and>
   status (jobs (run_next_capture CELERY_TASK_TIME_LIMIT interrupted_env one_job_world) ! 0) = Failed \<and>
   archives (run_next_capture CELERY_TASK_TIME_LIMIT interrupted_env one_job_world) = []"
proof -
  have h: "fst (get_next_job True (clean_up_failed_captures CELERY_TASK_TIME_LIMIT one_job_world)) = Some 0"
    by code_simp
  have v: "validate_and_clean killed_env (requested_url (jobs one_job_world ! 0)) =
      Inr ''http://example.com''"
    by code_simp
  have e: "container_started killed_env" by code_simp
  have x: "exit_status killed_env = Some 137" by code_simp
  then have x': "exit_status killed_env \<noteq> Some 0" by simp
  have f: "artifact_exists killed_env \<and> interrupted killed_env = None \<and> finalize_ok killed_env"
    by code_simp
  have a: "archives one_job_world @ [new_archive killed_env 0] =
     [\<lparr>archive_job = 0, hash = ''abc'', hash_algorithm = ''sha256'', warc_size = 1024,
       download_url = ''https://storage.example.com/file.wacz?Expires=100'',
       download_expiration_timestamp = 100\<rparr>]"
    by code_simp
  from nonzero_exit_salvage [OF h v e x'] f
  have k: "status (jobs (run_next_capture CELERY_TASK_TIME_LIMIT killed_env one_job_world) ! 0) = Completed"
    "archives (run_next_capture CELERY_TASK_TIME_LIMIT killed_env one_job_world) =
      archives one_job_world @ [new_archive killed_env 0]"
    by blast+
  have v2: "validate_and_clean interrupted_env (requested_url (jobs one_job_world ! 0)) =
      Inr ''http://example.com''"
    by code_simp
  have e2: "container_started interrupted_env" by code_simp
  have x2: "exit_status interrupted_env = Some 137" by code_simp
  then have x2': "exit_status interrupted_env \<noteq> Some 0" by simp
  have f2: "artifact_exists interrupted_env"
    "interrupted interrupted_env = Some SoftTimeLimitExceeded"
    by code_simp+
  then have g2: "artifact_exists interrupted_env \<and>
      (interrupted interrupted_env \<noteq> None \<or> \<not> finalize_ok interrupted_env)"
    by simp
  have z: "archives one_job_world = []" by code_simp
  from nonzero_exit_salvage [OF h v2 e2 x2'] g2
  have n: "status (jobs (run_next_capture CELERY_TASK_TIME_LIMIT interrupted_env one_job_world) ! 0) = Failed"
    "archives (run_next_capture CELERY_TASK_TIME_LIMIT interrupted_env one_job_world) =
      archives one_job_world"
    by blast+
  from h e x f k a e2 x2 f2 n z show ?thesis
    by (simp only: simp_thms)
qed

text \<open>
  The claim as stated fails when storage is down: the container is killed with exit code
  137, the output file exists, the main thread is not interrupted, \<open>storage.save\<close>
  raises, and the job ends Failed without an Archive record.
\<close>

theorem nonzero_exit_salvage_counterexample:
  "fst (get_next_job True (clean_up_failed_captures CELERY_TASK_TIME_LIMIT one_job_world)) = Some 0 \<and>
   container_started storage_down_env \<and> interrupted storage_down_env = None \<and>
   exit_status storage_down_env = Some 137 \<and> artifact_exists storage_down_env \<and>
   status (jobs (run_next_capture CELERY_TASK_TIME_LIMIT storage_down_env one_job_world) ! 0) = Failed \<and>
   archives (run_next_capture CELERY_TASK_TIME_LIMIT storage_down_env one_job_world) = []"
  by code_simp





text \<open>
  Claim C8, as amended. An invocation of \<open>run_next_capture\<close> that finds a pending job
  enqueues exactly one further \<open>run_next_capture\<close> before it returns, whatever happens
  to the capture. An invocation that finds no pending job logs \<open>No jobs waiting!\<close> and
  returns without enqueuing anything.
\<close>

theorem run_next_capture_enqueues_when_reserved:
  "(pending_ids w \<noteq> [] \<longrightarrow>
      enqueued (run_next_capture limit env w) = enqueued w @ [RunNextCapture]) \<and>
   (pending_ids w = [] \<longrightarrow>
      enqueued (run_next_capture limit env w) = enqueued w \<and>
      log_records (run_next_capture limit env w) = log_records w @ [Log_NoJobs])"
proof (intro conjI impI)
  assume "pending_ids w \<noteq> []"
  then obtain i where i: "fst (get_next_job True (clean_up_failed_captures limit w)) = Some i"
    using get_next_job_none [of limit w]
    by (cases "fst (get_next_job True (clean_up_failed_captures limit w))") auto
  from reserved_facts [OF i] obtain w1 where
    run: "\<And>env. run_next_capture limit env w = apply_async RunNextCapture (capture env i w1)"
    and i1: "i < length (jobs w1)" and st: "status (jobs w1 ! i) = InProgress"
    and en: "enqueued w1 = enqueued w"
    by blast
  have "enqueued (capture env i w1) = enqueued w1"
  proof (cases "validate_and_clean env (requested_url (jobs w1 ! i))")
    case (Inl ms)
    from capture_invalid [OF i1 this] show ?thesis by simp
  next
    case (Inr cleaned)
    from capture_valid [OF i1 st Inr] show ?thesis by simp
  qed
  then show "enqueued (run_next_capture limit env w) = enqueued w @ [RunNextCapture]"
    by (simp add: run en)
next
  assume "pending_ids w = []"
  then have n: "select_next_job (clean_up_failed_captures limit w) = None"
    by (simp add: select_next_job_None reap_pending_ids)
  then show "enqueued (run_next_capture limit env w) = enqueued w"
    by (simp add: run_next_capture_def get_next_job_def emit_def)
next
  assume "pending_ids w = []"
  then have n: "select_next_job (clean_up_failed_captures limit w) = None"
    by (simp add: select_next_job_None reap_pending_ids)
  then show "log_records (run_next_capture limit env w) = log_records w @ [Log_NoJobs]"
    by (simp add: run_next_capture_def get_next_job_def emit_def)
qed

theorem run_next_capture_enqueues_when_reserved_witness:
  "pending_ids one_job_world \<noteq> [] \<and> pending_ids empty_world = [] \<and>
   enqueued (run_next_capture CELERY_TASK_TIME_LIMIT example_env one_job_world) = [RunNextCapture] \<and>
   log_records (run_next_capture CELERY_TASK_TIME_LIMIT example_env empty_world) = [Log_NoJobs]"
proof -
  have a: "pending_ids one_job_world \<noteq> []" by code_simp
  have b: "pending_ids empty_world = []" by code_simp
  have c: "enqueued one_job_world = []" "log_records empty_world = []" by code_simp+
  from run_next_capture_enqueues_when_reserved [of one_job_world CELERY_TASK_TIME_LIMIT example_env] a c
  have A: "enqueued (run_next_capture CELERY_TASK_TIME_LIMIT example_env one_job_world) = [RunNextCapture]"
    by simp
  from run_next_capture_enqueues_when_reserved [of empty_world CELERY_TASK_TIME_LIMIT example_env] b c
  have B: "log_records (run_next_capture CELERY_TASK_TIME_LIMIT example_env empty_world) = [Log_NoJobs]"
    by simp
  from a b A B show ?thesis by (simp only: simp_thms)
qed

text \<open>
  The claim as stated fails on the empty queue: nothing is enqueued.
\<close>

theorem run_next_capture_always_enqueues_counterexample:
  "pending_ids empty_world = [] \<and>
   enqueued (run_next_capture CELERY_TASK_TIME_LIMIT example_env empty_world) = []"
  by code_simp

end
